theory Spec2Isabelle
  imports Complex_Main "HOL-Library.Word"
begin

section \<open>Data model\<close>

text \<open>
  The detection engine is the function \<open>jsQR\<close> of \<open>CameraRoom.tsx\<close>. Its buffers are
  \<open>Uint8ClampedArray\<close>s: sequences of 8-bit unsigned samples. Image dimensions are
  non-negative integers (they size a typed array). A JavaScript number that stays integral is
  an \<open>int\<close> here; one that may be fractional is a \<open>real\<close>, with the rounding of double
  arithmetic written out where an operation is inexact.
\<close>

type_synonym pixel_buffer = "8 word list"
type_synonym luminance_buffer = "8 word list"

text \<open>The object literal \<open>{ x, y }\<close> pushed by \<open>findPatterns\<close>.\<close>

record candidate =
  pos_x :: int
  pos_y :: int

text \<open>The object literal \<open>{ data: ... }\<close> returned by \<open>jsQR\<close>; \<open>null\<close> is \<open>None\<close>.\<close>

record detection_result =
  data :: string

definition minQRSize :: int where
  "minQRSize = 21"

section \<open>Reading a typed array\<close>

text \<open>
  \<open>gray[idx]\<close> yields the sample when \<open>idx\<close> is an integer index inside the array and
  \<open>undefined\<close> otherwise. A comparison of \<open>undefined\<close> with a number is false in both
  directions (\<open>undefined\<close> converts to NaN).
\<close>

definition typed_get :: "8 word list \<Rightarrow> int \<Rightarrow> 8 word option" where
  "typed_get arr idx = (if 0 \<le> idx \<and> idx < int (length arr) then Some (arr ! nat idx) else None)"

definition js_lt :: "8 word option \<Rightarrow> int \<Rightarrow> bool" where
  "js_lt v t = (case v of None \<Rightarrow> False | Some p \<Rightarrow> uint p < t)"

definition js_ge :: "8 word option \<Rightarrow> int \<Rightarrow> bool" where
  "js_ge v t = (case v of None \<Rightarrow> False | Some p \<Rightarrow> uint p \<ge> t)"

section \<open>Finder-pattern classification: \<open>isFinderPattern\<close>\<close>

definition isEdge :: "int \<Rightarrow> int \<Rightarrow> bool" where
  "isEdge dx dy = (dx = 0 \<or> dx = 6 \<or> dy = 0 \<or> dy = 6)"

definition isInner :: "int \<Rightarrow> int \<Rightarrow> bool" where
  "isInner dx dy = ((dx \<ge> 2 \<and> dx \<le> 4) \<and> (dy \<ge> 2 \<and> dy \<le> 4))"

text \<open>The body of the inner loop, acting on the pair \<open>(darkCount, lightCount)\<close>.\<close>

definition count_cell ::
  "luminance_buffer \<Rightarrow> int \<Rightarrow> int \<Rightarrow> int \<Rightarrow> int \<Rightarrow> int \<Rightarrow> int \<Rightarrow> nat \<times> nat \<Rightarrow> nat \<times> nat" where
  "count_cell gray startX startY w thresh dy dx counts =
     (let idx = (startY + dy) * w + (startX + dx);
          pixel = typed_get gray idx
      in if (isEdge dx dy \<or> isInner dx dy) \<and> js_lt pixel thresh
         then (fst counts + 1, snd counts)
         else if \<not> isEdge dx dy \<and> \<not> isInner dx dy \<and> js_ge pixel thresh
         then (fst counts, snd counts + 1)
         else counts)"

text \<open>The two counting loops \<open>for (dy = 0; dy < 7; dy++) for (dx = 0; dx < 7; dx++)\<close>.\<close>

definition count_window ::
  "luminance_buffer \<Rightarrow> int \<Rightarrow> int \<Rightarrow> int \<Rightarrow> int \<Rightarrow> nat \<times> nat" where
  "count_window gray startX startY w thresh =
     fold (\<lambda>dy. fold (\<lambda>dx. count_cell gray startX startY w thresh dy dx) [0..6]) [0..6] (0, 0)"

definition out_of_bounds :: "int \<Rightarrow> int \<Rightarrow> int \<Rightarrow> int \<Rightarrow> bool" where
  "out_of_bounds startX startY w h = (startX + 7 \<ge> w \<or> startY + 7 \<ge> h)"

definition isFinderPattern ::
  "luminance_buffer \<Rightarrow> int \<Rightarrow> int \<Rightarrow> int \<Rightarrow> int \<Rightarrow> int \<Rightarrow> bool" where
  "isFinderPattern gray startX startY w h thresh =
     (if out_of_bounds startX startY w h then False
      else let counts = count_window gray startX startY w thresh
           in fst counts \<ge> 20 \<and> snd counts \<ge> 8)"

section \<open>Finder-pattern scan: \<open>findPatterns\<close>\<close>

text \<open>
  The inner loop \<open>for (x = ...; x < width - minQRSize; x += 3)\<close> with the array
  \<open>patterns\<close> threaded through, and the outer loop over \<open>y\<close>.
\<close>

function findPatterns_x ::
  "luminance_buffer \<Rightarrow> nat \<Rightarrow> nat \<Rightarrow> int \<Rightarrow> int \<Rightarrow> int \<Rightarrow> candidate list \<Rightarrow> candidate list" where
  "findPatterns_x gray width height thresh y0 x0 patterns =
     (if x0 < int width - minQRSize
      then findPatterns_x gray width height thresh y0 (x0 + 3)
             (if isFinderPattern gray x0 y0 (int width) (int height) thresh
              then patterns @ [\<lparr>pos_x = x0, pos_y = y0\<rparr>] else patterns)
      else patterns)"
  by pat_completeness auto
termination
  by (relation "measure (\<lambda>(gray, width, height, thresh, y0, x0, patterns). nat (int width - minQRSize - x0))") auto

function findPatterns_y ::
  "luminance_buffer \<Rightarrow> nat \<Rightarrow> nat \<Rightarrow> int \<Rightarrow> int \<Rightarrow> candidate list \<Rightarrow> candidate list" where
  "findPatterns_y gray width height thresh y0 patterns =
     (if y0 < int height - minQRSize
      then findPatterns_y gray width height thresh (y0 + 3)
             (findPatterns_x gray width height thresh y0 0 patterns)
      else patterns)"
  by pat_completeness auto
termination
  by (relation "measure (\<lambda>(gray, width, height, thresh, y0, patterns). nat (int height - minQRSize - y0))") auto

definition findPatterns :: "luminance_buffer \<Rightarrow> nat \<Rightarrow> nat \<Rightarrow> int \<Rightarrow> candidate list" where
  "findPatterns gray width height thresh = findPatterns_y gray width height thresh 0 []"

declare findPatterns_x.simps [simp del]
declare findPatterns_y.simps [simp del]

section \<open>Centre-region walk\<close>

text \<open>
  The walk starts at \<open>centerY - extractSize / 2\<close>, which is a half-integer when
  \<open>extractSize\<close> is odd, so its coordinates are reals (halves of integers, which doubles
  represent exactly). A read at a non-integral index is \<open>undefined\<close>.
\<close>

definition typed_get_num :: "8 word list \<Rightarrow> real \<Rightarrow> 8 word option" where
  "typed_get_num arr idx = (if of_int \<lfloor>idx\<rfloor> = idx then typed_get arr \<lfloor>idx\<rfloor> else None)"

definition sample_bit :: "luminance_buffer \<Rightarrow> nat \<Rightarrow> int \<Rightarrow> real \<Rightarrow> real \<Rightarrow> char" where
  "sample_bit grayscale width thresh x0 y0 =
     (let idx = y0 * of_nat width + x0
      in if js_lt (typed_get_num grayscale idx) thresh then CHR ''1'' else CHR ''0'')"

function extract_x ::
  "luminance_buffer \<Rightarrow> nat \<Rightarrow> nat \<Rightarrow> int \<Rightarrow> int \<Rightarrow> int \<Rightarrow> real \<Rightarrow> real \<Rightarrow> string \<Rightarrow> string" where
  "extract_x grayscale width height thresh centerX extractSize y0 x0 dataString =
     (if x0 < of_int centerX + of_int extractSize / 2
      then extract_x grayscale width height thresh centerX extractSize y0 (x0 + 2)
             (if x0 \<ge> 0 \<and> x0 < of_nat width \<and> y0 \<ge> 0 \<and> y0 < of_nat height
              then dataString @ [sample_bit grayscale width thresh x0 y0] else dataString)
      else dataString)"
  by pat_completeness auto
termination
  by (relation "measure (\<lambda>(grayscale, width, height, thresh, centerX, extractSize, y0, x0, dataString).
        nat \<lceil>of_int centerX + of_int extractSize / 2 - x0\<rceil>)") (auto, linarith)

function extract_y ::
  "luminance_buffer \<Rightarrow> nat \<Rightarrow> nat \<Rightarrow> int \<Rightarrow> int \<Rightarrow> int \<Rightarrow> int \<Rightarrow> real \<Rightarrow> string \<Rightarrow> string" where
  "extract_y grayscale width height thresh centerX centerY extractSize y0 dataString =
     (if y0 < of_int centerY + of_int extractSize / 2
      then extract_y grayscale width height thresh centerX centerY extractSize (y0 + 2)
             (extract_x grayscale width height thresh centerX extractSize y0
                (of_int centerX - of_int extractSize / 2) dataString)
      else dataString)"
  by pat_completeness auto
termination
  by (relation "measure (\<lambda>(grayscale, width, height, thresh, centerX, centerY, extractSize, y0, dataString).
        nat \<lceil>of_int centerY + of_int extractSize / 2 - y0\<rceil>)") (auto, linarith)

declare extract_x.simps [simp del]
declare extract_y.simps [simp del]

definition extract_bits :: "luminance_buffer \<Rightarrow> nat \<Rightarrow> nat \<Rightarrow> int \<Rightarrow> string" where
  "extract_bits grayscale width height thresh =
     (let centerX = int width div 2;
          centerY = int height div 2;
          extractSize = min 100 (min (int width) (int height) div 10)
      in extract_y grayscale width height thresh centerX centerY extractSize
           (of_int centerY - of_int extractSize / 2) [])"

section \<open>Bits to text\<close>

text \<open>
  \<open>dataString.match(/.{1,8}/g) || []\<close>: greedy pieces of up to eight characters, so the
  last piece holds whatever remains. The strings here consist of the characters 0 and 1.
\<close>

fun chunks8 :: "string \<Rightarrow> string list" where
  "chunks8 s = (if s = [] then [] else take 8 s # chunks8 (drop 8 s))"

declare chunks8.simps [simp del]

text \<open>
  \<open>parseInt(chunk, 2)\<close> on a string without leading white space or sign: the value of
  the longest prefix of binary digits, NaN (\<open>None\<close>) when that prefix is empty.
\<close>

definition is_bit :: "char \<Rightarrow> bool" where
  "is_bit c = (c = CHR ''0'' \<or> c = CHR ''1'')"

definition bin_value :: "string \<Rightarrow> nat" where
  "bin_value ds = foldl (\<lambda>acc c. 2 * acc + (if c = CHR ''1'' then 1 else 0)) 0 ds"

definition parseInt2 :: "string \<Rightarrow> nat option" where
  "parseInt2 s = (let ds = takeWhile is_bit s in if ds = [] then None else Some (bin_value ds))"

definition decode_step :: "string \<Rightarrow> string \<Rightarrow> string" where
  "decode_step chunk result =
     (case parseInt2 chunk of
        None \<Rightarrow> result
      | Some charCode \<Rightarrow>
          if charCode \<ge> 32 \<and> charCode \<le> 126 then result @ [char_of charCode] else result)"

definition decode_chunks :: "string \<Rightarrow> string" where
  "decode_chunks dataString = fold decode_step (take 20 (chunks8 dataString)) []"

text \<open>The test \<open>/^[a-zA-Z0-9\-_]+$/\<close>.\<close>

definition id_char :: "char \<Rightarrow> bool" where
  "id_char c =
     (let n = (of_char c :: nat)
      in (97 \<le> n \<and> n \<le> 122) \<or> (65 \<le> n \<and> n \<le> 90) \<or> (48 \<le> n \<and> n \<le> 57) \<or> n = 45 \<or> n = 95)"

definition regex_test :: "string \<Rightarrow> bool" where
  "regex_test s = (s \<noteq> [] \<and> list_all id_char s)"

section \<open>Fallback identifier\<close>

text \<open>Decimal rendering of an integral number, as template literals and \<open>toString\<close> do.\<close>

fun dec_nat :: "nat \<Rightarrow> string" where
  "dec_nat n = (if n < 10 then [char_of (48 + n)] else dec_nat (n div 10) @ [char_of (48 + n mod 10)])"

declare dec_nat.simps [simp del]

definition num_toString :: "int \<Rightarrow> string" where
  "num_toString i = (if i < 0 then CHR ''-'' # dec_nat (nat (- i)) else dec_nat (nat i))"

fun join :: "string \<Rightarrow> string list \<Rightarrow> string" where
  "join sep [] = []"
| "join sep [s] = s"
| "join sep (s # t) = s @ sep @ join sep t"

text \<open>\<open>s.slice(-6)\<close>: the last six characters, or all of \<open>s\<close> when it is shorter.\<close>

definition slice_last6 :: "string \<Rightarrow> string" where
  "slice_last6 s = drop (length s - 6) s"

definition patternHash :: "candidate list \<Rightarrow> string" where
  "patternHash patterns =
     join ''_'' (map (\<lambda>p. num_toString (pos_x p) @ ''-'' @ num_toString (pos_y p)) (take 3 patterns))"

text \<open>The clock reading \<open>Date.now()\<close> is the parameter \<open>now\<close>.\<close>

definition fallback_id :: "candidate list \<Rightarrow> int \<Rightarrow> string" where
  "fallback_id patterns now =
     ''QR_'' @ patternHash patterns @ ''_'' @ slice_last6 (num_toString now)"

section \<open>The detection core\<close>

text \<open>
  Everything of \<open>jsQR\<close> after the grey-scale conversion, with the threshold as a
  parameter (the source fixes it to 128).
\<close>

definition detect ::
  "luminance_buffer \<Rightarrow> nat \<Rightarrow> nat \<Rightarrow> int \<Rightarrow> int \<Rightarrow> detection_result option" where
  "detect grayscale width height thresh now =
     (let patterns = findPatterns grayscale width height thresh
      in if length patterns \<ge> 3
         then let result = decode_chunks (extract_bits grayscale width height thresh)
              in if length result > 3 \<and> regex_test result
                 then Some \<lparr>data = result\<rparr>
                 else Some \<lparr>data = fallback_id patterns now\<rparr>
         else None)"

section \<open>Grey-scale conversion\<close>

text \<open>
  The weighted sum is computed in IEEE 754 double precision. A double is modelled as the real
  number it denotes; every inexact operation rounds its exact result to the nearest number
  with a 53-bit significand, ties to the even significand. All values that occur lie between
  0 and 256, so overflow and subnormal numbers play no part.
\<close>

definition round_half_even :: "real \<Rightarrow> int" where
  "round_half_even v =
     (let f = \<lfloor>v\<rfloor>; d = v - of_int f
      in if d < 1 / 2 then f else if d > 1 / 2 then f + 1 else if even f then f else f + 1)"

text \<open>Scale into \<open>[2^52, 2^53)\<close>, round to an integer there, scale back.\<close>

function double_round_pos :: "real \<Rightarrow> real" where
  "double_round_pos v =
     (if v \<le> 0 then 0
      else if v < 2 ^ 52 then double_round_pos (2 * v) / 2
      else if 2 ^ 53 \<le> v then double_round_pos (v / 2) * 2
      else of_int (round_half_even v))"
  by pat_completeness auto
termination
proof (relation "measure (\<lambda>v. 2 * nat \<lceil>2 ^ 52 / v\<rceil> + nat \<lceil>v / 2 ^ 52\<rceil>)")
  show "wf (measure (\<lambda>v::real. 2 * nat \<lceil>2 ^ 52 / v\<rceil> + nat \<lceil>v / 2 ^ 52\<rceil>))"
    by simp
next
  have halve: "\<lceil>a / 2\<rceil> < \<lceil>a\<rceil>" if "1 < a" for a :: real
  proof (cases "a \<le> 2")
    case True
    then have "\<lceil>a / 2\<rceil> \<le> 1" by (simp add: ceiling_le_iff)
    moreover have "1 < \<lceil>a\<rceil>" using that by (simp add: less_ceiling_iff)
    ultimately show ?thesis by linarith
  next
    case False
    have "of_int \<lceil>a / 2\<rceil> < a / 2 + 1" using ceiling_correct [of "a / 2"] by linarith
    also have "\<dots> \<le> a" using False by simp
    also have "\<dots> \<le> of_int \<lceil>a\<rceil>" by (rule le_of_int_ceiling)
    finally show ?thesis by simp
  qed
  {
    fix v :: real
    assume a: "\<not> v \<le> 0" "v < 2 ^ 52"
    define a where "a = 2 ^ 52 / v"
    have a1: "1 < a" using a by (simp add: a_def)
    have e1: "2 ^ 52 / (2 * v) = a / 2" by (simp add: a_def)
    have s0: "\<lceil>v / 2 ^ 52\<rceil> = 1"
      using a by (intro ceiling_unique) auto
    have s1: "\<lceil>2 * v / 2 ^ 52\<rceil> \<le> 2"
      using a by (simp add: ceiling_le_iff)
    have s2: "0 < \<lceil>a / 2\<rceil>" using a1 by (simp add: less_ceiling_iff)
    show "(2 * v, v) \<in> measure (\<lambda>v. 2 * nat \<lceil>2 ^ 52 / v\<rceil> + nat \<lceil>v / 2 ^ 52\<rceil>)"
      using halve [OF a1] s0 s1 s2 unfolding in_measure e1 a_def [symmetric] by linarith
  next
    fix v :: real
    assume a: "\<not> v \<le> 0" "\<not> v < 2 ^ 52" "2 ^ 53 \<le> v"
    define b where "b = v / 2 ^ 52"
    have b2: "2 \<le> b" using a by (simp add: b_def)
    have e1: "v / 2 / 2 ^ 52 = b / 2" by (simp add: b_def)
    have f0: "\<lceil>2 ^ 52 / v\<rceil> = 1"
      using a by (intro ceiling_unique) auto
    have f1: "\<lceil>2 ^ 52 / (v / 2)\<rceil> = 1"
      using a by (intro ceiling_unique) auto
    have s2: "0 < \<lceil>b / 2\<rceil>" using b2 by (simp add: less_ceiling_iff)
    show "(v / 2, v) \<in> measure (\<lambda>v. 2 * nat \<lceil>2 ^ 52 / v\<rceil> + nat \<lceil>v / 2 ^ 52\<rceil>)"
      using halve [of b] b2 f0 f1 s2 unfolding in_measure e1 b_def [symmetric] by linarith
  }
qed

declare double_round_pos.simps [simp del]

definition double_round :: "real \<Rightarrow> real" where
  "double_round v = (if v < 0 then - double_round_pos (- v) else double_round_pos v)"

text \<open>
  The literals \<open>0.299\<close>, \<open>0.587\<close>, \<open>0.114\<close> denote the doubles nearest to these decimals.
\<close>

definition lit_0_299 :: real where
  "lit_0_299 = double_round (299 / 1000)"

definition lit_0_587 :: real where
  "lit_0_587 = double_round (587 / 1000)"

definition lit_0_114 :: real where
  "lit_0_114 = double_round (114 / 1000)"

definition fmul :: "real \<Rightarrow> real \<Rightarrow> real" where
  "fmul a b = double_round (a * b)"

definition fadd :: "real \<Rightarrow> real \<Rightarrow> real" where
  "fadd a b = double_round (a + b)"

text \<open>\<open>Math.round\<close>: the nearest integer, a tie going up.\<close>

definition math_round :: "real \<Rightarrow> int" where
  "math_round v = \<lfloor>v + 1 / 2\<rfloor>"

text \<open>
  \<open>0.299 * R + 0.587 * G + 0.114 * B\<close>, evaluated left to right, on three samples.
\<close>

definition weighted_sum :: "8 word \<Rightarrow> 8 word \<Rightarrow> 8 word \<Rightarrow> real" where
  "weighted_sum r g b =
     fadd (fadd (fmul lit_0_299 (of_int (uint r))) (fmul lit_0_587 (of_int (uint g))))
          (fmul lit_0_114 (of_int (uint b)))"

text \<open>
  The value \<open>gray\<close> of one loop iteration; \<open>None\<close> is NaN, which arises when a read
  past the end of \<open>data\<close> yields \<open>undefined\<close>.
\<close>

definition gray_value :: "8 word option \<Rightarrow> 8 word option \<Rightarrow> 8 word option \<Rightarrow> int option" where
  "gray_value r g b =
     (case r of None \<Rightarrow> None | Some r' \<Rightarrow>
        (case g of None \<Rightarrow> None | Some g' \<Rightarrow>
           (case b of None \<Rightarrow> None | Some b' \<Rightarrow> Some (math_round (weighted_sum r' g' b')))))"

text \<open>
  Storing an integral number into a \<open>Uint8ClampedArray\<close> clamps it to 0..255; NaN is
  stored as 0. A store past the end of the array is ignored.
\<close>

definition toUint8Clamp :: "int option \<Rightarrow> 8 word" where
  "toUint8Clamp v =
     (case v of None \<Rightarrow> 0
      | Some n \<Rightarrow> if n \<le> 0 then 0 else if n \<ge> 255 then 255 else word_of_int n)"

definition typed_set :: "8 word list \<Rightarrow> nat \<Rightarrow> int option \<Rightarrow> 8 word list" where
  "typed_set arr k v = (if k < length arr then arr[k := toUint8Clamp v] else arr)"

function toGrayscale_loop :: "pixel_buffer \<Rightarrow> nat \<Rightarrow> luminance_buffer \<Rightarrow> luminance_buffer" where
  "toGrayscale_loop rgba i grayscale =
     (if i < length rgba
      then toGrayscale_loop rgba (i + 4)
             (typed_set grayscale (i div 4)
                (gray_value (typed_get rgba (int i)) (typed_get rgba (int i + 1))
                   (typed_get rgba (int i + 2))))
      else grayscale)"
  by pat_completeness auto
termination
  by (relation "measure (\<lambda>(rgba, i, grayscale). length rgba - i)") auto

declare toGrayscale_loop.simps [simp del]

definition toGrayscale :: "pixel_buffer \<Rightarrow> nat \<Rightarrow> nat \<Rightarrow> luminance_buffer" where
  "toGrayscale rgba width height = toGrayscale_loop rgba 0 (replicate (width * height) 0)"

section \<open>The entry point\<close>

definition threshold :: int where
  "threshold = 128"

definition jsQR :: "pixel_buffer \<Rightarrow> nat \<Rightarrow> nat \<Rightarrow> int \<Rightarrow> detection_result option" where
  "jsQR rgba width height now = detect (toGrayscale rgba width height) width height threshold now"

section \<open>The classification rule and the scan grid, as the specification words them\<close>

text \<open>
  The 49 cells of a window are offsets \<open>(dx, dy)\<close>. The border ring is row or column 0
  or 6, the inner core is rows and columns 2 to 4, the middle ring is the rest.
\<close>

definition border_ring :: "(int \<times> int) set" where
  "border_ring = {(dx, dy). dx \<in> {0..6} \<and> dy \<in> {0..6} \<and> (dx = 0 \<or> dx = 6 \<or> dy = 0 \<or> dy = 6)}"

definition inner_core :: "(int \<times> int) set" where
  "inner_core = {2..4} \<times> {2..4}"

definition middle_ring :: "(int \<times> int) set" where
  "middle_ring = ({0..6} \<times> {0..6}) - (border_ring \<union> inner_core)"

text \<open>The luminance of the cell at offset \<open>c\<close> of the window at \<open>(startX, startY)\<close>.\<close>

definition sample_at :: "luminance_buffer \<Rightarrow> int \<Rightarrow> int \<Rightarrow> int \<Rightarrow> int \<times> int \<Rightarrow> int" where
  "sample_at gray w startX startY c = uint (gray ! nat ((startY + snd c) * w + (startX + fst c)))"

definition dark_cells :: "luminance_buffer \<Rightarrow> int \<Rightarrow> int \<Rightarrow> int \<Rightarrow> int \<Rightarrow> (int \<times> int) set" where
  "dark_cells gray w thresh startX startY =
     {c \<in> border_ring \<union> inner_core. sample_at gray w startX startY c < thresh}"

definition light_cells :: "luminance_buffer \<Rightarrow> int \<Rightarrow> int \<Rightarrow> int \<Rightarrow> int \<Rightarrow> (int \<times> int) set" where
  "light_cells gray w thresh startX startY =
     {c \<in> middle_ring. sample_at gray w startX startY c \<ge> thresh}"

definition finder_rule :: "luminance_buffer \<Rightarrow> int \<Rightarrow> int \<Rightarrow> int \<Rightarrow> int \<Rightarrow> bool" where
  "finder_rule gray w thresh startX startY =
     (card (dark_cells gray w thresh startX startY) \<ge> 20 \<and>
      card (light_cells gray w thresh startX startY) \<ge> 8)"

definition window_cells :: "(int \<times> int) list" where
  "window_cells = concat (map (\<lambda>dy. map (\<lambda>dx. (dx, dy)) [0..6]) [0..6])"

text \<open>
  The values a counter takes in \<open>for (v = v0; v < limit; v += 3)\<close>, and the positions
  at which the two loops of \<open>findPatterns\<close> call \<open>isFinderPattern\<close>, in call order.
\<close>

function scan_steps :: "int \<Rightarrow> int \<Rightarrow> int list" where
  "scan_steps v limit = (if v < limit then v # scan_steps (v + 3) limit else [])"
  by pat_completeness auto
termination
  by (relation "measure (\<lambda>(v, limit). nat (limit - v))") auto

declare scan_steps.simps [simp del]

definition scan_grid :: "nat \<Rightarrow> nat \<Rightarrow> (int \<times> int) list" where
  "scan_grid width height =
     concat (map (\<lambda>y0. map (\<lambda>x0. (x0, y0)) (scan_steps 0 (int width - minQRSize)))
                 (scan_steps 0 (int height - minQRSize)))"

text \<open>Row-major order on candidates: increasing \<open>y\<close>, and increasing \<open>x\<close> for equal \<open>y\<close>.\<close>

definition row_major_less :: "candidate \<Rightarrow> candidate \<Rightarrow> bool" where
  "row_major_less p q = (pos_y p < pos_y q \<or> (pos_y p = pos_y q \<and> pos_x p < pos_x q))"

text \<open>The values a counter takes in \<open>for (v = v0; v < limit; v += 2)\<close> of the walk.\<close>

function walk_steps :: "real \<Rightarrow> real \<Rightarrow> real list" where
  "walk_steps v limit = (if v < limit then v # walk_steps (v + 2) limit else [])"
  by pat_completeness auto
termination
  by (relation "measure (\<lambda>(v, limit). nat \<lceil>limit - v\<rceil>)") (auto, linarith)

declare walk_steps.simps [simp del]

section \<open>Bits to text, as the specification words it\<close>

text \<open>
  Consecutive 8-character chunks with a trailing partial chunk discarded; at most the first
  20 of them; a chunk contributes its character exactly when its base-2 value lies in
  \<open>[32, 126]\<close>.
\<close>

definition full_chunks :: "string \<Rightarrow> string list" where
  "full_chunks s = map (\<lambda>k. take 8 (drop (8 * k) s)) [0..<length s div 8]"

definition printable :: "nat \<Rightarrow> bool" where
  "printable n = (32 \<le> n \<and> n \<le> 126)"

definition spec_decode :: "string \<Rightarrow> string" where
  "spec_decode s =
     map (\<lambda>chunk. char_of (bin_value chunk))
       (filter (\<lambda>chunk. printable (bin_value chunk)) (take 20 (full_chunks s)))"

definition is_digit :: "char \<Rightarrow> bool" where
  "is_digit c = (48 \<le> (of_char c :: nat) \<and> (of_char c :: nat) \<le> 57)"

text \<open>The number a string of decimal digits denotes.\<close>

definition dec_value :: "string \<Rightarrow> nat" where
  "dec_value s = foldl (\<lambda>acc c. 10 * acc + (of_char c - 48)) 0 s"

text \<open>One candidate rendered as \<open>x-y\<close>.\<close>

definition candidate_text :: "candidate \<Rightarrow> string" where
  "candidate_text p = num_toString (pos_x p) @ ''-'' @ num_toString (pos_y p)"

text \<open>The exact weighted sum \<open>0.299 R + 0.587 G + 0.114 B\<close>, in thousandths.\<close>

definition exact_sum1000 :: "8 word \<Rightarrow> 8 word \<Rightarrow> 8 word \<Rightarrow> int" where
  "exact_sum1000 r g b = 299 * uint r + 587 * uint g + 114 * uint b"

section \<open>Test frames\<close>

text \<open>
  Vertical stripes with period 6, dark in columns 0, 3 and 4 of each period: every window
  on the scan grid has the finder signature.
\<close>

definition stripe_sample :: "nat \<Rightarrow> 8 word" where
  "stripe_sample col = (if col mod 6 \<in> {0, 3, 4} then 0 else 255)"

definition stripes :: "nat \<Rightarrow> nat \<Rightarrow> luminance_buffer" where
  "stripes w h = map (\<lambda>i. stripe_sample (i mod w)) [0..<w * h]"

text \<open>A 64 by 64 frame that is white throughout.\<close>

definition white_frame :: luminance_buffer where
  "white_frame = replicate (64 * 64) 255"

text \<open>
  A 120 by 120 frame: stripes, with the 36 pixels the walk samples (even rows and columns
  54 to 64) set from the bits of \<open>ABCD\<close> followed by four zero bits.
\<close>

definition payload :: string where
  "payload = ''010000010100001001000011010001000000''"

definition payload_sample :: "nat \<Rightarrow> nat \<Rightarrow> 8 word" where
  "payload_sample col row =
     (if 54 \<le> col \<and> col \<le> 64 \<and> 54 \<le> row \<and> row \<le> 64 \<and> even col \<and> even row
      then (if payload ! (((row - 54) div 2) * 6 + (col - 54) div 2) = CHR ''1'' then 0 else 255)
      else stripe_sample col)"

definition payload_frame :: luminance_buffer where
  "payload_frame = map (\<lambda>i. payload_sample (i mod 120) (i div 120)) [0..<120 * 120]"

section \<open>Typed-array reads on generated buffers\<close>

lemma typed_get_map_upt:
  "typed_get (map f [0..<n]) idx = (if 0 \<le> idx \<and> idx < int n then Some (f (nat idx)) else None)"
proof (cases "0 \<le> idx \<and> idx < int n")
  case True
  then have "nat idx < n" by linarith
  with True show ?thesis by (simp add: typed_get_def)
next
  case False
  then show ?thesis by (auto simp: typed_get_def)
qed

lemma typed_get_stripes:
  "typed_get (stripes w h) idx =
     (if 0 \<le> idx \<and> idx < int (w * h) then Some (stripe_sample (nat idx mod w)) else None)"
  unfolding stripes_def typed_get_map_upt by simp

lemma upto_0_6: "[0..6::int] = [0, 1, 2, 3, 4, 5, 6]"
  by (simp add: upto.simps)

lemmas window_eval =
  isFinderPattern_def out_of_bounds_def count_window_def upto_0_6 count_cell_def
  isEdge_def isInner_def js_lt_def js_ge_def stripe_sample_def

section \<open>The window classifier counts cells\<close>

lemma card_border_ring: "card border_ring = 24"
proof -
  have "border_ring = ({0..6} \<times> {0..6}) - ({1..5} \<times> {1..5})"
    unfolding border_ring_def by auto
  moreover have "card (({0..6::int} \<times> {0..6::int}) - ({1..5} \<times> {1..5}))
      = card ({0..6::int} \<times> {0..6::int}) - card ({1..5::int} \<times> {1..5::int})"
    by (rule card_Diff_subset) auto
  ultimately show ?thesis by simp
qed

lemma card_inner_core: "card inner_core = 9"
  by (simp add: inner_core_def)

lemma card_middle_ring: "card middle_ring = 16"
proof -
  have "middle_ring = ({1..5} \<times> {1..5}) - ({2..4} \<times> {2..4})"
    unfolding middle_ring_def border_ring_def inner_core_def by auto
  moreover have "card (({1..5::int} \<times> {1..5::int}) - ({2..4} \<times> {2..4}))
      = card ({1..5::int} \<times> {1..5::int}) - card ({2..4::int} \<times> {2..4::int})"
    by (rule card_Diff_subset) auto
  ultimately show ?thesis by simp
qed

lemma fold_nested:
  "fold (\<lambda>dy. fold (\<lambda>dx. f dy dx) xs) ys s =
   fold (\<lambda>(dx, dy). f dy dx) (concat (map (\<lambda>dy. map (\<lambda>dx. (dx, dy)) xs) ys)) s"
proof (induction ys arbitrary: s)
  case Nil
  then show ?case by simp
next
  case (Cons a ys)
  have "fold (\<lambda>dx. f a dx) xs t = fold (\<lambda>(dx, dy). f dy dx) (map (\<lambda>dx. (dx, a)) xs) t" for t
    by (induction xs arbitrary: t) auto
  with Cons show ?case by simp
qed

lemma set_window_cells: "set window_cells = {0..6} \<times> {0..6}"
  unfolding window_cells_def by auto

lemma distinct_window_cells: "distinct window_cells"
  unfolding window_cells_def
  by (auto intro!: distinct_concat simp: distinct_map inj_on_def)

lemma fold_count:
  assumes "\<And>c s. step c s = (if D c then (fst s + 1, snd s) else if L c then (fst s, snd s + 1) else s)"
  shows "fold step cs s = (fst s + length (filter D cs), snd s + length (filter (\<lambda>c. \<not> D c \<and> L c) cs))"
  by (induction cs arbitrary: s) (auto simp: assms)

lemma length_filter_card:
  "distinct xs \<Longrightarrow> length (filter P xs) = card {c \<in> set xs. P c}"
  by (metis distinct_filter distinct_card set_filter)

lemma count_window_eq:
  "count_window gray startX startY w thresh =
     (card {c \<in> {0..6} \<times> {0..6}. (isEdge (fst c) (snd c) \<or> isInner (fst c) (snd c)) \<and>
              js_lt (typed_get gray ((startY + snd c) * w + (startX + fst c))) thresh},
      card {c \<in> {0..6} \<times> {0..6}. \<not> isEdge (fst c) (snd c) \<and> \<not> isInner (fst c) (snd c) \<and>
              js_ge (typed_get gray ((startY + snd c) * w + (startX + fst c))) thresh})"
proof -
  let ?D = "\<lambda>c. (isEdge (fst c) (snd c) \<or> isInner (fst c) (snd c)) \<and>
              js_lt (typed_get gray ((startY + snd c) * w + (startX + fst c))) thresh"
  let ?L = "\<lambda>c. \<not> isEdge (fst c) (snd c) \<and> \<not> isInner (fst c) (snd c) \<and>
              js_ge (typed_get gray ((startY + snd c) * w + (startX + fst c))) thresh"
  let ?step = "\<lambda>(dx, dy). count_cell gray startX startY w thresh dy dx"
  have step: "?step c s = (if ?D c then (fst s + 1, snd s) else if ?L c then (fst s, snd s + 1) else s)" for c s
    by (cases c) (simp add: count_cell_def Let_def)
  have "count_window gray startX startY w thresh = fold ?step window_cells (0, 0)"
    unfolding count_window_def window_cells_def by (rule fold_nested)
  also have "\<dots> = (length (filter ?D window_cells), length (filter (\<lambda>c. \<not> ?D c \<and> ?L c) window_cells))"
    using fold_count [of ?step ?D ?L window_cells "(0, 0)", OF step] by simp
  also have "filter (\<lambda>c. \<not> ?D c \<and> ?L c) window_cells = filter ?L window_cells"
    by (rule filter_cong) auto
  finally show ?thesis
    by (simp add: length_filter_card [OF distinct_window_cells] set_window_cells)
qed

lemma window_index_in_range:
  assumes "0 \<le> startX" "0 \<le> startY" "startX + 7 < int w" "startY + 7 < int h"
    and "c \<in> {0..6} \<times> {0..6}"
  shows "0 \<le> (startY + snd c) * int w + (startX + fst c)"
    and "(startY + snd c) * int w + (startX + fst c) < int (w * h)"
proof -
  from assms have dx: "0 \<le> fst c" "fst c \<le> 6" and dy: "0 \<le> snd c" "snd c \<le> 6"
    by auto
  show "0 \<le> (startY + snd c) * int w + (startX + fst c)"
    using assms(1,2) dx dy by simp
  have "(startY + snd c + 1) * int w \<le> int h * int w"
    using assms(4) dy by (intro mult_right_mono) auto
  then have "(startY + snd c) * int w + int w \<le> int h * int w"
    by (simp add: algebra_simps)
  moreover have "startX + fst c < int w"
    using assms(3) dx by simp
  ultimately show "(startY + snd c) * int w + (startX + fst c) < int (w * h)"
    by (simp add: mult.commute)
qed

lemma dark_region_iff:
  "c \<in> border_ring \<union> inner_core \<longleftrightarrow>
     c \<in> {0..6} \<times> {0..6} \<and> (isEdge (fst c) (snd c) \<or> isInner (fst c) (snd c))"
  by (cases c) (auto simp: border_ring_def inner_core_def isEdge_def isInner_def)

lemma light_region_iff:
  "c \<in> middle_ring \<longleftrightarrow>
     c \<in> {0..6} \<times> {0..6} \<and> \<not> isEdge (fst c) (snd c) \<and> \<not> isInner (fst c) (snd c)"
  by (cases c) (auto simp: middle_ring_def border_ring_def inner_core_def isEdge_def isInner_def)

lemma isFinderPattern_iff_rule:
  assumes "length gray = w * h"
    and "0 \<le> startX" "0 \<le> startY" "startX + 7 < int w" "startY + 7 < int h"
  shows "isFinderPattern gray startX startY (int w) (int h) thresh
         \<longleftrightarrow> finder_rule gray (int w) thresh startX startY"
proof -
  have rd: "typed_get gray ((startY + snd c) * int w + (startX + fst c))
            = Some (gray ! nat ((startY + snd c) * int w + (startX + fst c)))"
    if "c \<in> {0..6} \<times> {0..6}" for c
    using window_index_in_range [OF assms(2-5) that] assms(1)
    by (simp add: typed_get_def)
  have D: "{c \<in> {0..6} \<times> {0..6}. (isEdge (fst c) (snd c) \<or> isInner (fst c) (snd c)) \<and>
              js_lt (typed_get gray ((startY + snd c) * int w + (startX + fst c))) thresh}
           = dark_cells gray (int w) thresh startX startY"
  proof (rule set_eqI)
    fix c
    show "c \<in> {c \<in> {0..6} \<times> {0..6}. (isEdge (fst c) (snd c) \<or> isInner (fst c) (snd c)) \<and>
              js_lt (typed_get gray ((startY + snd c) * int w + (startX + fst c))) thresh}
         \<longleftrightarrow> c \<in> dark_cells gray (int w) thresh startX startY"
      unfolding dark_cells_def mem_Collect_eq dark_region_iff
      using rd [of c] by (auto simp: js_lt_def sample_at_def)
  qed
  have L: "{c \<in> {0..6} \<times> {0..6}. \<not> isEdge (fst c) (snd c) \<and> \<not> isInner (fst c) (snd c) \<and>
              js_ge (typed_get gray ((startY + snd c) * int w + (startX + fst c))) thresh}
           = light_cells gray (int w) thresh startX startY"
  proof (rule set_eqI)
    fix c
    show "c \<in> {c \<in> {0..6} \<times> {0..6}. \<not> isEdge (fst c) (snd c) \<and> \<not> isInner (fst c) (snd c) \<and>
              js_ge (typed_get gray ((startY + snd c) * int w + (startX + fst c))) thresh}
         \<longleftrightarrow> c \<in> light_cells gray (int w) thresh startX startY"
      unfolding light_cells_def mem_Collect_eq light_region_iff
      using rd [of c] by (auto simp: js_ge_def sample_at_def)
  qed
  have "\<not> out_of_bounds startX startY (int w) (int h)"
    using assms(4,5) by (simp add: out_of_bounds_def)
  then show ?thesis
    by (simp add: isFinderPattern_def count_window_eq D L finder_rule_def)
qed

section \<open>The scan visits the grid in row-major order\<close>

lemma findPatterns_x_eq:
  "findPatterns_x gray width height thresh y0 x0 patterns =
     patterns @ map (\<lambda>x1. \<lparr>pos_x = x1, pos_y = y0\<rparr>)
       (filter (\<lambda>x1. isFinderPattern gray x1 y0 (int width) (int height) thresh)
          (scan_steps x0 (int width - minQRSize)))"
proof (induction gray width height thresh y0 x0 patterns rule: findPatterns_x.induct)
  case (1 gray width height thresh y0 x0 patterns)
  show ?case
  proof (cases "x0 < int width - minQRSize")
    case True
    then show ?thesis
      using "1.IH" [OF True]
      by (subst findPatterns_x.simps, subst scan_steps.simps) simp
  next
    case False
    then show ?thesis
      by (subst findPatterns_x.simps, subst scan_steps.simps) simp
  qed
qed

lemma findPatterns_y_eq:
  "findPatterns_y gray width height thresh y0 patterns =
     patterns @ concat (map (\<lambda>y1. map (\<lambda>x1. \<lparr>pos_x = x1, pos_y = y1\<rparr>)
       (filter (\<lambda>x1. isFinderPattern gray x1 y1 (int width) (int height) thresh)
          (scan_steps 0 (int width - minQRSize)))) (scan_steps y0 (int height - minQRSize)))"
proof (induction gray width height thresh y0 patterns rule: findPatterns_y.induct)
  case (1 gray width height thresh y0 patterns)
  show ?case
  proof (cases "y0 < int height - minQRSize")
    case True
    then show ?thesis
      using "1.IH" [OF True]
      by (subst findPatterns_y.simps, subst scan_steps.simps) (simp add: findPatterns_x_eq)
  next
    case False
    then show ?thesis
      by (subst findPatterns_y.simps, subst scan_steps.simps) simp
  qed
qed

lemma findPatterns_eq_filter:
  "findPatterns gray width height thresh =
     map (\<lambda>(x0, y0). \<lparr>pos_x = x0, pos_y = y0\<rparr>)
       (filter (\<lambda>(x0, y0). isFinderPattern gray x0 y0 (int width) (int height) thresh)
          (scan_grid width height))"
  unfolding findPatterns_def scan_grid_def findPatterns_y_eq
  by (simp add: map_concat filter_concat comp_def filter_map)

lemma set_scan_steps:
  "set (scan_steps v limit) = {u. v \<le> u \<and> u < limit \<and> 3 dvd (u - v)}"
proof (induction v limit rule: scan_steps.induct)
  case (1 v limit)
  show ?case
  proof (cases "v < limit")
    case True
    have "{u. v \<le> u \<and> u < limit \<and> 3 dvd (u - v)}
        = insert v {u. v + 3 \<le> u \<and> u < limit \<and> 3 dvd (u - (v + 3))}"
      using True by (auto, presburger+)
    then show ?thesis
      using "1.IH" [OF True] True by (subst scan_steps.simps) simp
  next
    case False
    then show ?thesis by (subst scan_steps.simps) auto
  qed
qed

lemma sorted_scan_steps: "sorted_wrt (<) (scan_steps v limit)"
proof (induction v limit rule: scan_steps.induct)
  case (1 v limit)
  show ?case
  proof (cases "v < limit")
    case True
    then show ?thesis
      using "1.IH" [OF True] by (subst scan_steps.simps) (auto simp: set_scan_steps)
  next
    case False
    then show ?thesis by (subst scan_steps.simps) simp
  qed
qed

lemma set_scan_grid:
  "set (scan_grid width height) =
     {(x0, y0). 0 \<le> x0 \<and> x0 < int width - 21 \<and> 3 dvd x0 \<and>
                0 \<le> y0 \<and> y0 < int height - 21 \<and> 3 dvd y0}"
  unfolding scan_grid_def by (auto simp: set_scan_steps minQRSize_def)

lemma sorted_wrt_concat_rows:
  fixes ys :: "int list" and f :: "int \<Rightarrow> int list"
  assumes "sorted_wrt (<) ys" and "\<And>y0. sorted_wrt (<) (f y0)"
  shows "sorted_wrt (\<lambda>p q. snd p < snd q \<or> (snd p = snd q \<and> fst p < fst q))
           (concat (map (\<lambda>y0. map (\<lambda>x0. (x0, y0)) (f y0)) ys))"
  using assms(1)
proof (induction ys)
  case Nil
  then show ?case by simp
next
  case (Cons y0 ys)
  have row: "sorted_wrt (\<lambda>p q. snd p < snd q \<or> (snd p = snd q \<and> fst p < fst q))
               (map (\<lambda>x0. (x0, y0)) (f y0))"
    using assms(2) [of y0] by (simp add: sorted_wrt_map)
  from Cons show ?case
    by (auto simp: sorted_wrt_append row)
qed

lemma sorted_scan_grid:
  "sorted_wrt (\<lambda>p q. snd p < snd q \<or> (snd p = snd q \<and> fst p < fst q)) (scan_grid width height)"
  unfolding scan_grid_def
  by (rule sorted_wrt_concat_rows [OF sorted_scan_steps]) (rule sorted_scan_steps)

lemma sorted_findPatterns: "sorted_wrt row_major_less (findPatterns gray width height thresh)"
proof -
  have "sorted_wrt (\<lambda>p q. snd p < snd q \<or> (snd p = snd q \<and> fst p < fst q))
          (filter (\<lambda>(x0, y0). isFinderPattern gray x0 y0 (int width) (int height) thresh)
             (scan_grid width height))"
    by (rule sorted_wrt_filter [OF sorted_scan_grid])
  then show ?thesis
    unfolding findPatterns_eq_filter
    by (simp add: sorted_wrt_map row_major_less_def case_prod_beta)
qed

lemma grid_not_out_of_bounds:
  assumes "(x0, y0) \<in> set (scan_grid width height)"
  shows "\<not> out_of_bounds x0 y0 (int width) (int height)"
  using assms by (auto simp: set_scan_grid out_of_bounds_def)

lemma set_findPatterns:
  assumes "length gray = width * height"
  shows "set (findPatterns gray width height thresh) =
     {\<lparr>pos_x = x0, pos_y = y0\<rparr> | x0 y0.
        3 dvd x0 \<and> 3 dvd y0 \<and> 0 \<le> x0 \<and> x0 < int width - 21 \<and> 0 \<le> y0 \<and> y0 < int height - 21 \<and>
        finder_rule gray (int width) thresh x0 y0}"
proof -
  have iff: "isFinderPattern gray x0 y0 (int width) (int height) thresh
             \<longleftrightarrow> finder_rule gray (int width) thresh x0 y0"
    if "(x0, y0) \<in> set (scan_grid width height)" for x0 y0
    using that by (intro isFinderPattern_iff_rule [OF assms]) (auto simp: set_scan_grid)
  show ?thesis
    unfolding findPatterns_eq_filter
    using iff by (auto simp: set_scan_grid image_iff)
qed

lemma findPatterns_stripes:
  "findPatterns (stripes 28 22) 28 22 128 =
     [\<lparr>pos_x = 0, pos_y = 0\<rparr>, \<lparr>pos_x = 3, pos_y = 0\<rparr>, \<lparr>pos_x = 6, pos_y = 0\<rparr>]"
  by (simp add: findPatterns_def findPatterns_y.simps findPatterns_x.simps minQRSize_def
      window_eval typed_get_stripes)

lemma white_not_finder:
  assumes "0 \<le> x0" "0 \<le> y0" "x0 + 7 < int w" "y0 + 7 < int h" and "thresh \<le> 255"
  shows "\<not> finder_rule (replicate (w * h) 255) (int w) thresh x0 y0"
proof -
  have "dark_cells (replicate (w * h) 255) (int w) thresh x0 y0 = {}"
  proof -
    have "\<not> sample_at (replicate (w * h) 255) (int w) x0 y0 c < thresh"
      if "c \<in> border_ring \<union> inner_core" for c
    proof -
      from that dark_region_iff [of c] have c: "c \<in> {0..6} \<times> {0..6}"
        by blast
      have "nat ((y0 + snd c) * int w + (x0 + fst c)) < w * h"
        using window_index_in_range [OF assms(1-4) c] by linarith
      then have "sample_at (replicate (w * h) 255) (int w) x0 y0 c = 255"
        by (simp add: sample_at_def)
      with assms(5) show ?thesis by simp
    qed
    then show ?thesis unfolding dark_cells_def by blast
  qed
  then show ?thesis by (simp add: finder_rule_def)
qed

lemma white_frame_not_finder:
  assumes "0 \<le> x0" "x0 < int 64 - 21" "0 \<le> y0" "y0 < int 64 - 21"
  shows "\<not> finder_rule white_frame (int 64) 128 x0 y0"
  unfolding white_frame_def by (rule white_not_finder) (use assms in auto)

lemma length_white_frame: "length white_frame = 64 * 64"
  by (simp add: white_frame_def)

lemma isFinderPattern_stripes_origin: "isFinderPattern (stripes 28 22) 0 0 28 22 128"
  by (simp add: window_eval typed_get_stripes)

section \<open>Claims about the finder-pattern locator\<close>

text \<open>
  C3. For a luminance buffer of \<open>w * h\<close> samples, any threshold, and a window origin
  inside the bounds the classifier accepts (\<open>startX + 7 < w\<close>, \<open>startY + 7 < h\<close>, both
  non-negative), \<open>isFinderPattern\<close> holds exactly when at least 20 of the cells of the border
  ring and the inner core are dark (luminance below the threshold) and at least 8 cells of
  the middle ring are light (luminance at or above the threshold). The border ring has 24
  cells, the inner core 9 and the middle ring 16.
\<close>

theorem isFinderPattern_rule:
  assumes "length gray = w * h"
    and "0 \<le> startX" "0 \<le> startY" "startX + 7 < int w" "startY + 7 < int h"
  shows "card border_ring = 24 \<and> card inner_core = 9 \<and> card middle_ring = 16 \<and>
         (isFinderPattern gray startX startY (int w) (int h) thresh
          \<longleftrightarrow> card (dark_cells gray (int w) thresh startX startY) \<ge> 20 \<and>
              card (light_cells gray (int w) thresh startX startY) \<ge> 8)"
  using isFinderPattern_iff_rule [OF assms, of thresh]
  by (simp add: card_border_ring card_inner_core card_middle_ring finder_rule_def)

theorem isFinderPattern_rule_witness:
  "length (stripes 28 22) = 28 * 22 \<and> (0::int) + 7 < int 28 \<and> (0::int) + 7 < int 22 \<and>
   isFinderPattern (stripes 28 22) 0 0 28 22 128 \<and>
   card (dark_cells (stripes 28 22) 28 128 0 0) \<ge> 20 \<and>
   card (light_cells (stripes 28 22) 28 128 0 0) \<ge> 8"
proof -
  have len: "length (stripes 28 22) = 28 * 22"
    by (simp add: stripes_def)
  have "isFinderPattern (stripes 28 22) 0 0 (int 28) (int 22) 128
        \<longleftrightarrow> card (dark_cells (stripes 28 22) (int 28) 128 0 0) \<ge> 20 \<and>
            card (light_cells (stripes 28 22) (int 28) 128 0 0) \<ge> 8"
    using isFinderPattern_rule [OF len, of 0 0 128] by simp
  with isFinderPattern_stripes_origin len show ?thesis by simp
qed

text \<open>
  C4. For a luminance buffer of \<open>width * height\<close> samples, \<open>findPatterns\<close> returns
  exactly the candidates whose coordinates are multiples of 3 with \<open>0 \<le> x < width - 21\<close>
  and \<open>0 \<le> y < height - 21\<close> and whose window passes the classification rule; the list
  is strictly increasing in row-major order (so it has no repetitions); and it is empty
  when no such window qualifies.
\<close>

theorem findPatterns_exact:
  assumes "length gray = width * height"
  shows "set (findPatterns gray width height thresh) =
           {\<lparr>pos_x = x0, pos_y = y0\<rparr> | x0 y0.
              3 dvd x0 \<and> 3 dvd y0 \<and> 0 \<le> x0 \<and> x0 < int width - 21 \<and>
              0 \<le> y0 \<and> y0 < int height - 21 \<and> finder_rule gray (int width) thresh x0 y0} \<and>
         sorted_wrt row_major_less (findPatterns gray width height thresh) \<and>
         ((\<forall>x0 y0. 3 dvd x0 \<and> 3 dvd y0 \<and> 0 \<le> x0 \<and> x0 < int width - 21 \<and>
              0 \<le> y0 \<and> y0 < int height - 21 \<longrightarrow> \<not> finder_rule gray (int width) thresh x0 y0)
          \<longrightarrow> findPatterns gray width height thresh = [])"
proof (intro conjI impI)
  show "set (findPatterns gray width height thresh) =
           {\<lparr>pos_x = x0, pos_y = y0\<rparr> | x0 y0.
              3 dvd x0 \<and> 3 dvd y0 \<and> 0 \<le> x0 \<and> x0 < int width - 21 \<and>
              0 \<le> y0 \<and> y0 < int height - 21 \<and> finder_rule gray (int width) thresh x0 y0}"
    by (rule set_findPatterns [OF assms])
  show "sorted_wrt row_major_less (findPatterns gray width height thresh)"
    by (rule sorted_findPatterns)
  assume none: "\<forall>x0 y0. 3 dvd x0 \<and> 3 dvd y0 \<and> 0 \<le> x0 \<and> x0 < int width - 21 \<and>
              0 \<le> y0 \<and> y0 < int height - 21 \<longrightarrow> \<not> finder_rule gray (int width) thresh x0 y0"
  have "set (findPatterns gray width height thresh) = {}"
    unfolding set_findPatterns [OF assms] using none by simp
  then show "findPatterns gray width height thresh = []"
    by simp
qed

theorem findPatterns_exact_witness:
  "length (stripes 28 22) = 28 * 22 \<and>
   findPatterns (stripes 28 22) 28 22 128 =
     [\<lparr>pos_x = 0, pos_y = 0\<rparr>, \<lparr>pos_x = 3, pos_y = 0\<rparr>, \<lparr>pos_x = 6, pos_y = 0\<rparr>] \<and>
   finder_rule (stripes 28 22) 28 128 6 0 \<and>
   sorted_wrt row_major_less (findPatterns (stripes 28 22) 28 22 128) \<and>
   length white_frame = 64 * 64 \<and>
   findPatterns white_frame 64 64 128 = []"
proof -
  have len: "length (stripes 28 22) = 28 * 22"
    by (simp add: stripes_def)
  note st = findPatterns_exact [OF len, of 128]
  have "\<lparr>pos_x = 6, pos_y = 0\<rparr> \<in> set (findPatterns (stripes 28 22) 28 22 128)"
    by (simp add: findPatterns_stripes)
  then have "\<lparr>pos_x = 6, pos_y = 0\<rparr> \<in> {\<lparr>pos_x = x0, pos_y = y0\<rparr> | x0 y0.
              3 dvd x0 \<and> 3 dvd y0 \<and> 0 \<le> x0 \<and> x0 < int 28 - 21 \<and>
              0 \<le> y0 \<and> y0 < int 22 - 21 \<and> finder_rule (stripes 28 22) (int 28) 128 x0 y0}"
    using st by simp
  then have rule: "finder_rule (stripes 28 22) 28 128 6 0"
    by simp
  have srt: "sorted_wrt row_major_less (findPatterns (stripes 28 22) 28 22 128)"
    using st by simp
  have none: "\<forall>x0 y0. 3 dvd x0 \<and> 3 dvd y0 \<and> 0 \<le> x0 \<and> x0 < int 64 - 21 \<and> 0 \<le> y0 \<and> y0 < int 64 - 21
      \<longrightarrow> \<not> finder_rule white_frame (int 64) 128 x0 y0"
    by (intro allI impI white_frame_not_finder) auto
  have "findPatterns white_frame 64 64 128 = []"
    using findPatterns_exact [OF length_white_frame, of 128] none by (elim conjE impE)
  with len rule srt length_white_frame findPatterns_stripes show ?thesis
    by (intro conjI)
qed

text \<open>
  C9. Every candidate returned by \<open>findPatterns\<close> has \<open>0 \<le> x \<le> width - 8\<close> and
  \<open>0 \<le> y \<le> height - 8\<close>, so the last column \<open>x + 6\<close> and the last row \<open>y + 6\<close> of
  its window lie inside the buffer. A window that would overrun the right or the bottom edge
  (\<open>x + 7 > width\<close> or \<open>y + 7 > height\<close>) meets the bounds test of \<open>isFinderPattern\<close> and
  is rejected before any cell is counted.
\<close>

theorem candidates_in_bounds:
  "(\<forall>p \<in> set (findPatterns gray width height thresh).
      0 \<le> pos_x p \<and> pos_x p \<le> int width - 8 \<and> 0 \<le> pos_y p \<and> pos_y p \<le> int height - 8 \<and>
      pos_x p + 6 < int width \<and> pos_y p + 6 < int height) \<and>
   (\<forall>sx sy. sx + 7 > int width \<or> sy + 7 > int height \<longrightarrow>
      out_of_bounds sx sy (int width) (int height) \<and>
      \<not> isFinderPattern gray sx sy (int width) (int height) thresh)"
proof -
  have "0 \<le> pos_x p \<and> pos_x p \<le> int width - 8 \<and> 0 \<le> pos_y p \<and> pos_y p \<le> int height - 8 \<and>
        pos_x p + 6 < int width \<and> pos_y p + 6 < int height"
    if "p \<in> set (findPatterns gray width height thresh)" for p
    using that unfolding findPatterns_eq_filter by (auto simp: set_scan_grid)
  moreover have "out_of_bounds sx sy (int width) (int height) \<and>
        \<not> isFinderPattern gray sx sy (int width) (int height) thresh"
    if "sx + 7 > int width \<or> sy + 7 > int height" for sx sy
    using that by (auto simp: out_of_bounds_def isFinderPattern_def)
  ultimately show ?thesis by blast
qed

theorem candidates_in_bounds_witness:
  "\<lparr>pos_x = 6, pos_y = 0\<rparr> \<in> set (findPatterns (stripes 28 22) 28 22 128) \<and>
   (6::int) \<le> int 28 - 8 \<and> (0::int) \<le> int 22 - 8 \<and>
   (22::int) + 7 > int 28 \<and> out_of_bounds 22 0 (int 28) (int 22) \<and>
   \<not> isFinderPattern (stripes 28 22) 22 0 (int 28) (int 22) 128"
proof -
  have m: "\<lparr>pos_x = 6, pos_y = 0\<rparr> \<in> set (findPatterns (stripes 28 22) 28 22 128)"
    by (simp add: findPatterns_stripes)
  have "(22::int) + 7 > int 28 \<or> (0::int) + 7 > int 22" by simp
  with candidates_in_bounds [of "stripes 28 22" 28 22 128] m show ?thesis
    by (auto simp del: of_nat_numeral)
qed

text \<open>
  C10. \<open>findPatterns\<close> applies \<open>isFinderPattern\<close> at exactly the positions of the scan
  grid (multiples of 3 with \<open>x < width - 21\<close>, \<open>y < height - 21\<close>). At none of them does
  the bounds test \<open>startX + 7 \<ge> w \<or> startY + 7 \<ge> h\<close> of \<open>isFinderPattern\<close> fire, so
  the verdict there is always the result of counting the cells of the window.
\<close>

theorem scan_never_out_of_bounds:
  "findPatterns gray width height thresh =
     map (\<lambda>(x0, y0). \<lparr>pos_x = x0, pos_y = y0\<rparr>)
       (filter (\<lambda>(x0, y0). isFinderPattern gray x0 y0 (int width) (int height) thresh)
          (scan_grid width height)) \<and>
   set (scan_grid width height) =
     {(x0, y0). 0 \<le> x0 \<and> x0 < int width - 21 \<and> 3 dvd x0 \<and>
                0 \<le> y0 \<and> y0 < int height - 21 \<and> 3 dvd y0} \<and>
   (\<forall>(x0, y0) \<in> set (scan_grid width height).
      \<not> out_of_bounds x0 y0 (int width) (int height) \<and>
      (isFinderPattern gray x0 y0 (int width) (int height) thresh \<longleftrightarrow>
         fst (count_window gray x0 y0 (int width) thresh) \<ge> 20 \<and>
         snd (count_window gray x0 y0 (int width) thresh) \<ge> 8))"
proof -
  have "\<not> out_of_bounds x0 y0 (int width) (int height) \<and>
      (isFinderPattern gray x0 y0 (int width) (int height) thresh \<longleftrightarrow>
         fst (count_window gray x0 y0 (int width) thresh) \<ge> 20 \<and>
         snd (count_window gray x0 y0 (int width) thresh) \<ge> 8)"
    if "(x0, y0) \<in> set (scan_grid width height)" for x0 y0
    using grid_not_out_of_bounds [OF that] by (simp add: isFinderPattern_def Let_def)
  then show ?thesis
    using findPatterns_eq_filter [of gray width height thresh] set_scan_grid [of width height]
    by blast
qed

theorem scan_never_out_of_bounds_witness:
  "(6, 0) \<in> set (scan_grid 28 22) \<and> \<not> out_of_bounds 6 0 (int 28) (int 22) \<and>
   isFinderPattern (stripes 28 22) 6 0 (int 28) (int 22) 128 \<and>
   fst (count_window (stripes 28 22) 6 0 (int 28) 128) \<ge> 20 \<and>
   snd (count_window (stripes 28 22) 6 0 (int 28) 128) \<ge> 8"
proof -
  have m: "(6, 0) \<in> set (scan_grid 28 22)"
    by (simp add: set_scan_grid)
  have "isFinderPattern (stripes 28 22) 6 0 (int 28) (int 22) 128"
    by (simp add: window_eval typed_get_stripes)
  with scan_never_out_of_bounds [of "stripes 28 22" 28 22 128] m show ?thesis
    by blast
qed

section \<open>The walk reads a square of samples\<close>

lemma extract_x_eq:
  "extract_x grayscale width height thresh centerX extractSize y0 x0 dataString =
     dataString @ map (\<lambda>x1. sample_bit grayscale width thresh x1 y0)
       (filter (\<lambda>x1. x1 \<ge> 0 \<and> x1 < of_nat width \<and> y0 \<ge> 0 \<and> y0 < of_nat height)
          (walk_steps x0 (of_int centerX + of_int extractSize / 2)))"
proof (induction grayscale width height thresh centerX extractSize y0 x0 dataString
    rule: extract_x.induct)
  case (1 grayscale width height thresh centerX extractSize y0 x0 dataString)
  show ?case
  proof (cases "x0 < of_int centerX + of_int extractSize / 2")
    case True
    then show ?thesis
      using "1.IH" [OF True]
      by (subst extract_x.simps, subst walk_steps.simps) simp
  next
    case False
    then show ?thesis
      by (subst extract_x.simps, subst walk_steps.simps) simp
  qed
qed

lemma extract_y_eq:
  "extract_y grayscale width height thresh centerX centerY extractSize y0 dataString =
     dataString @ concat (map (\<lambda>y1. map (\<lambda>x1. sample_bit grayscale width thresh x1 y1)
       (filter (\<lambda>x1. x1 \<ge> 0 \<and> x1 < of_nat width \<and> y1 \<ge> 0 \<and> y1 < of_nat height)
          (walk_steps (of_int centerX - of_int extractSize / 2)
             (of_int centerX + of_int extractSize / 2))))
       (walk_steps y0 (of_int centerY + of_int extractSize / 2)))"
proof (induction grayscale width height thresh centerX centerY extractSize y0 dataString
    rule: extract_y.induct)
  case (1 grayscale width height thresh centerX centerY extractSize y0 dataString)
  show ?case
  proof (cases "y0 < of_int centerY + of_int extractSize / 2")
    case True
    then show ?thesis
      using "1.IH" [OF True]
      by (subst extract_y.simps, subst walk_steps.simps) (simp add: extract_x_eq)
  next
    case False
    then show ?thesis
      by (subst extract_y.simps, subst walk_steps.simps) simp
  qed
qed

lemma walk_steps_bounds: "u \<in> set (walk_steps v limit) \<Longrightarrow> v \<le> u \<and> u < limit"
proof (induction v limit rule: walk_steps.induct)
  case (1 v limit)
  show ?case
  proof (cases "v < limit")
    case True
    from "1.prems" have "u = v \<or> u \<in> set (walk_steps (v + 2) limit)"
      by (subst (asm) walk_steps.simps) (simp add: True)
    then show ?thesis
      using "1.IH" [OF True] True by auto
  next
    case False
    with "1.prems" show ?thesis
      by (subst (asm) walk_steps.simps) simp
  qed
qed

lemma length_walk_steps: "length (walk_steps v limit) = nat \<lceil>(limit - v) / 2\<rceil>"
proof (induction v limit rule: walk_steps.induct)
  case (1 v limit)
  show ?case
  proof (cases "v < limit")
    case True
    have "\<lceil>(limit - v) / 2\<rceil> = \<lceil>(limit - (v + 2)) / 2\<rceil> + 1"
    proof -
      have "(limit - v) / 2 = (limit - (v + 2)) / 2 + 1" by argo
      then show ?thesis by (simp only: ceiling_add_one)
    qed
    moreover have "0 \<le> \<lceil>(limit - (v + 2)) / 2\<rceil>"
    proof -
      have "- 1 < (limit - (v + 2)) / 2" using True by simp
      then have "- 1 < \<lceil>(limit - (v + 2)) / 2\<rceil>" by (simp add: less_ceiling_iff)
      then show ?thesis by linarith
    qed
    ultimately show ?thesis
      using "1.IH" [OF True] True by (subst walk_steps.simps) (simp add: nat_add_distrib)
  next
    case False
    then have "\<lceil>(limit - v) / 2\<rceil> \<le> 0" by (simp add: ceiling_le_iff)
    with False show ?thesis by (subst walk_steps.simps) simp
  qed
qed

lemma walk_in_range:
  fixes width other :: nat and extractSize :: int and u :: real
  assumes e: "extractSize = min 100 (min (int width) (int other) div 10)"
    and u: "u \<in> set (walk_steps (of_int (int width div 2) - of_int extractSize / 2)
                       (of_int (int width div 2) + of_int extractSize / 2))"
  shows "0 \<le> u \<and> u < of_nat width"
proof -
  define c where "c = int width div 2"
  from walk_steps_bounds [OF u]
  have lo: "of_int c - of_int extractSize / 2 \<le> u" and hi: "u < of_int c + of_int extractSize / 2"
    by (simp_all add: c_def)
  from lo hi have "0 < (of_int extractSize :: real)" by linarith
  then have epos: "1 \<le> extractSize" by simp
  have "extractSize \<le> int width div 10"
    unfolding e by (simp add: min_def) linarith
  then have w10: "10 * extractSize \<le> int width" by linarith
  have c2: "int width - 1 \<le> 2 * c" "2 * c \<le> int width"
    unfolding c_def by linarith+
  have r1: "10 * (of_int extractSize :: real) \<le> of_nat width"
    using of_int_le_iff [where ?'a = real, of "10 * extractSize" "int width"] w10 by simp
  have r2: "(of_nat width :: real) - 1 \<le> 2 * of_int c" "2 * (of_int c :: real) \<le> of_nat width"
    using of_int_le_iff [where ?'a = real, of "int width - 1" "2 * c"]
      of_int_le_iff [where ?'a = real, of "2 * c" "int width"] c2 by simp_all
  have r3: "1 \<le> (of_int extractSize :: real)" using epos by simp
  from lo hi r1 r2 r3 show ?thesis by linarith
qed

lemma sample_bit_is_bit: "is_bit (sample_bit grayscale width thresh x1 y1)"
  by (simp add: sample_bit_def is_bit_def Let_def)

lemma extract_bits_eq:
  fixes width height :: nat
  defines "e \<equiv> min 100 (min (int width) (int height) div 10)"
  defines "xs \<equiv> walk_steps (of_int (int width div 2) - of_int e / 2) (of_int (int width div 2) + of_int e / 2)"
  defines "ys \<equiv> walk_steps (of_int (int height div 2) - of_int e / 2) (of_int (int height div 2) + of_int e / 2)"
  shows "extract_bits grayscale width height thresh =
           concat (map (\<lambda>y1. map (\<lambda>x1. sample_bit grayscale width thresh x1 y1) xs) ys)"
proof -
  have e0: "e = min 100 (min (int width) (int height) div 10)"
    by (simp add: e_def)
  have e': "e = min 100 (min (int height) (int width) div 10)"
    by (simp add: e_def min.commute)
  have keep: "filter (\<lambda>x1. x1 \<ge> 0 \<and> x1 < of_nat width \<and> y1 \<ge> 0 \<and> y1 < of_nat height) xs = xs"
    if "y1 \<in> set ys" for y1
  proof -
    from that have "0 \<le> y1 \<and> y1 < of_nat height"
      unfolding ys_def by (rule walk_in_range [OF e'])
    moreover have "0 \<le> x1 \<and> x1 < of_nat width" if "x1 \<in> set xs" for x1
      using that unfolding xs_def by (rule walk_in_range [OF e0])
    ultimately show ?thesis by (simp add: filter_id_conv)
  qed
  have "extract_bits grayscale width height thresh =
          concat (map (\<lambda>y1. map (\<lambda>x1. sample_bit grayscale width thresh x1 y1)
            (filter (\<lambda>x1. x1 \<ge> 0 \<and> x1 < of_nat width \<and> y1 \<ge> 0 \<and> y1 < of_nat height) xs)) ys)"
    by (simp add: extract_bits_def extract_y_eq Let_def xs_def ys_def e_def)
  also have "\<dots> = concat (map (\<lambda>y1. map (\<lambda>x1. sample_bit grayscale width thresh x1 y1) xs) ys)"
    by (intro arg_cong [where f = concat] map_cong refl) (simp add: keep)
  finally show ?thesis .
qed

lemma extract_bits_length:
  "length (extract_bits grayscale width height thresh) =
     nat \<lceil>real_of_int (min 100 (min (int width) (int height) div 10)) / 2\<rceil> *
     nat \<lceil>real_of_int (min 100 (min (int width) (int height) div 10)) / 2\<rceil>"
  by (simp add: extract_bits_eq length_concat comp_def sum_list_triv length_walk_steps)

lemma extract_bits_bits: "\<forall>c \<in> set (extract_bits grayscale width height thresh). is_bit c"
  by (auto simp: extract_bits_eq sample_bit_is_bit)

lemma square_mod_8: "(k * k) mod 8 \<in> {0, 1, 4 :: nat}"
proof -
  have "(k * k) mod 8 = ((k mod 8) * (k mod 8)) mod 8"
    by (simp add: mod_mult_eq)
  moreover have "k mod 8 \<in> {0, 1, 2, 3, 4, 5, 6, 7}"
    by (simp add: insert_commute) presburger
  ultimately show ?thesis by auto
qed

section \<open>Chunks and characters\<close>

lemma full_chunks_short: "length s < 8 \<Longrightarrow> full_chunks s = []"
  by (simp add: full_chunks_def)

lemma full_chunks_rec:
  assumes "8 \<le> length s"
  shows "full_chunks s = take 8 s # full_chunks (drop 8 s)"
proof -
  from assms have d: "length s div 8 = Suc ((length s - 8) div 8)"
    by (simp add: le_div_geq)
  have "[0..<Suc ((length s - 8) div 8)] = 0 # map Suc [0..<(length s - 8) div 8]"
    by (simp add: upt_conv_Cons map_Suc_upt del: upt_Suc)
  then show ?thesis
    by (simp add: full_chunks_def d comp_def add.commute del: upt_Suc)
qed

lemma chunks8_eq:
  "chunks8 s = full_chunks s @
     (if length s mod 8 = 0 then [] else [drop (8 * (length s div 8)) s])"
proof (induction s rule: chunks8.induct)
  case (1 s)
  show ?case
  proof (cases "s = []")
    case True
    then show ?thesis by (simp add: chunks8.simps full_chunks_def)
  next
    case False
    note ne = False
    show ?thesis
    proof (cases "length s < 8")
      case True
      then have "drop 8 s = []" by simp
      then have "chunks8 s = [s]"
        using ne True by (subst chunks8.simps) (simp add: chunks8.simps [of "[]"])
      moreover have "length s mod 8 \<noteq> 0" using True ne by simp
      ultimately show ?thesis using True by (simp add: full_chunks_short)
    next
      case False
      then have ge: "8 \<le> length s" by simp
      have m: "(length s - 8) mod 8 = length s mod 8"
        using ge by (simp add: le_mod_geq)
      have d: "length s div 8 = Suc ((length s - 8) div 8)"
        using ge by (simp add: le_div_geq)
      have "chunks8 s = take 8 s # chunks8 (drop 8 s)"
        using ne by (subst chunks8.simps) simp
      also have "chunks8 (drop 8 s) = full_chunks (drop 8 s) @
          (if length s mod 8 = 0 then [] else [drop (8 * (length s div 8)) s])"
        using "1.IH" [OF ne] by (simp add: m d add.commute)
      finally show ?thesis
        by (simp add: full_chunks_rec [OF ge])
    qed
  qed
qed

lemma full_chunk_props:
  assumes "chunk \<in> set (full_chunks s)"
  shows "length chunk = 8" and "set chunk \<subseteq> set s"
proof -
  from assms obtain k where k: "k < length s div 8" and c: "chunk = take 8 (drop (8 * k) s)"
    by (auto simp: full_chunks_def)
  from k have "8 * k + 8 \<le> length s" by linarith
  then show "length chunk = 8" by (simp add: c)
  show "set chunk \<subseteq> set s"
    unfolding c by (meson order_trans set_take_subset set_drop_subset)
qed

lemma parseInt2_bits:
  assumes "s \<noteq> []" and "\<forall>c \<in> set s. is_bit c"
  shows "parseInt2 s = Some (bin_value s)"
proof -
  from assms(2) have tw: "takeWhile is_bit s = s" by (simp add: takeWhile_eq_all_conv)
  show ?thesis unfolding parseInt2_def Let_def tw using assms(1) by simp
qed

lemma fold_decode_step:
  assumes "\<forall>chunk \<in> set cs. chunk \<noteq> [] \<and> (\<forall>c \<in> set chunk. is_bit c)"
  shows "fold decode_step cs acc =
           acc @ map (\<lambda>chunk. char_of (bin_value chunk))
                   (filter (\<lambda>chunk. printable (bin_value chunk)) cs)"
  using assms
proof (induction cs arbitrary: acc)
  case Nil
  then show ?case by simp
next
  case (Cons chunk cs)
  then have "parseInt2 chunk = Some (bin_value chunk)"
    by (intro parseInt2_bits) auto
  then have "decode_step chunk acc =
      (if printable (bin_value chunk) then acc @ [char_of (bin_value chunk)] else acc)"
    by (simp add: decode_step_def printable_def)
  with Cons show ?case by simp
qed

lemma foldl_bin_less:
  fixes a :: nat
  shows "foldl (\<lambda>acc c. 2 * acc + (if c = CHR ''1'' then 1 else 0)) a ds < (a + 1) * 2 ^ length ds"
proof (induction ds arbitrary: a)
  case Nil
  then show ?case by simp
next
  case (Cons c ds)
  have "foldl (\<lambda>acc c. 2 * acc + (if c = CHR ''1'' then 1 else 0)) (2 * a + (if c = CHR ''1'' then 1 else 0)) ds
        < (2 * a + (if c = CHR ''1'' then 1 else 0) + 1) * 2 ^ length ds"
    by (rule Cons.IH)
  also have "\<dots> \<le> (2 * a + 2) * 2 ^ length ds"
    by (intro mult_right_mono) auto
  finally show ?case by (simp add: algebra_simps)
qed

lemma bin_value_less: "bin_value ds < 2 ^ length ds"
  using foldl_bin_less [of 0 ds] by (simp add: bin_value_def)

lemma length_fold_decode_step: "length (fold decode_step cs acc) \<le> length acc + length cs"
proof (induction cs arbitrary: acc)
  case Nil
  then show ?case by simp
next
  case (Cons chunk cs)
  have "length (decode_step chunk acc) \<le> length acc + 1"
    by (simp add: decode_step_def split: option.split)
  with Cons.IH [of "decode_step chunk acc"] show ?case by simp
qed

lemma length_decode_chunks: "length (decode_chunks s) \<le> 20"
proof -
  have "length (decode_chunks s) \<le> length (take 20 (chunks8 s))"
    using length_fold_decode_step [of "take 20 (chunks8 s)" "[]"] by (simp add: decode_chunks_def)
  then show ?thesis by simp
qed

lemma decode_eq_spec:
  assumes bits: "\<forall>c \<in> set s. is_bit c" and short: "length s mod 8 < 6"
  shows "decode_chunks s = spec_decode s"
proof -
  let ?fc = "full_chunks s"
  let ?p = "drop (8 * (length s div 8)) s"
  have fc_ok: "\<forall>chunk \<in> set (take 20 ?fc). chunk \<noteq> [] \<and> (\<forall>c \<in> set chunk. is_bit c)"
  proof
    fix chunk assume "chunk \<in> set (take 20 ?fc)"
    then have "chunk \<in> set ?fc" by (rule in_set_takeD)
    from full_chunk_props [OF this] bits show "chunk \<noteq> [] \<and> (\<forall>c \<in> set chunk. is_bit c)"
      by auto
  qed
  have spec: "fold decode_step (take 20 ?fc) [] = spec_decode s"
    using fold_decode_step [OF fc_ok, of "[]"] by (simp add: spec_decode_def)
  show ?thesis
  proof (cases "length s mod 8 = 0 \<or> 20 \<le> length ?fc")
    case True
    then have "take 20 (chunks8 s) = take 20 ?fc"
      by (auto simp: chunks8_eq)
    then show ?thesis by (simp add: decode_chunks_def spec)
  next
    case False
    then have "length ?fc < 20" and "length s mod 8 \<noteq> 0"
      by auto
    then have t: "take 20 (chunks8 s) = take 20 ?fc @ [?p]"
      by (simp add: chunks8_eq)
    have lp: "length ?p = length s mod 8"
      by (simp add: minus_mult_div_eq_mod)
    have "?p \<noteq> []" using False lp by auto
    moreover have "\<forall>c \<in> set ?p. is_bit c"
      using bits by (meson in_set_dropD)
    ultimately have "parseInt2 ?p = Some (bin_value ?p)"
      by (rule parseInt2_bits)
    moreover have "bin_value ?p < 32"
    proof -
      have "bin_value ?p < 2 ^ length ?p" by (rule bin_value_less)
      also have "\<dots> \<le> 2 ^ 5" using short lp by (intro power_increasing) auto
      finally show ?thesis by simp
    qed
    ultimately have "decode_step ?p r = r" for r
      by (simp add: decode_step_def)
    then show ?thesis by (simp add: decode_chunks_def t spec)
  qed
qed

lemma decode_walk_eq_spec:
  "decode_chunks (extract_bits grayscale width height thresh) =
   spec_decode (extract_bits grayscale width height thresh)"
proof (rule decode_eq_spec)
  show "\<forall>c \<in> set (extract_bits grayscale width height thresh). is_bit c"
    by (rule extract_bits_bits)
  have "length (extract_bits grayscale width height thresh) mod 8 \<in> {0, 1, 4}"
    unfolding extract_bits_length by (rule square_mod_8)
  then show "length (extract_bits grayscale width height thresh) mod 8 < 6"
    by auto
qed

section \<open>Decimal rendering\<close>

lemma is_digit_char_of: "d < 10 \<Longrightarrow> is_digit (char_of (48 + d))" for d :: nat
proof -
  assume "d < 10"
  then have "(48 + d) mod 256 = 48 + d" by simp
  then have "(of_char (char_of (48 + d)) :: nat) = 48 + d" by (simp add: of_char_of)
  with \<open>d < 10\<close> show ?thesis by (simp add: is_digit_def)
qed

lemma digit_value_char_of: "d < 10 \<Longrightarrow> (of_char (char_of (48 + d)) :: nat) - 48 = d" for d :: nat
proof -
  assume "d < 10"
  then have "(48 + d) mod 256 = 48 + d" by simp
  then have "(of_char (char_of (48 + d)) :: nat) = 48 + d" by (simp add: of_char_of)
  then show ?thesis by simp
qed

lemma dec_value_snoc: "dec_value (s @ [c]) = 10 * dec_value s + (of_char c - 48)"
  by (simp add: dec_value_def)

lemma dec_nat_digits: "list_all is_digit (dec_nat n)"
proof (induction n rule: dec_nat.induct)
  case (1 n)
  show ?case
  proof (cases "n < 10")
    case True
    then show ?thesis by (subst dec_nat.simps) (simp add: is_digit_char_of)
  next
    case False
    then show ?thesis
      using "1.IH" by (subst dec_nat.simps) (simp add: is_digit_char_of)
  qed
qed

lemma dec_value_dec_nat: "dec_value (dec_nat n) = n"
proof (induction n rule: dec_nat.induct)
  case (1 n)
  show ?case
  proof (cases "n < 10")
    case True
    then show ?thesis
      by (subst dec_nat.simps) (simp add: dec_value_def digit_value_char_of)
  next
    case False
    then show ?thesis
      using "1.IH" by (subst dec_nat.simps) (simp add: dec_value_snoc digit_value_char_of)
  qed
qed

lemma dec_value_less: "list_all is_digit s \<Longrightarrow> dec_value s < 10 ^ length s"
proof (induction s rule: rev_induct)
  case Nil
  then show ?case by (simp add: dec_value_def)
next
  case (snoc c s)
  then have "dec_value s < 10 ^ length s" by simp
  then have "10 * dec_value s + 10 \<le> 10 * 10 ^ length s" by simp
  moreover from snoc.prems have "(of_char c :: nat) - 48 < 10"
    by (auto simp: is_digit_def)
  ultimately show ?case by (simp add: dec_value_snoc)
qed

lemma dec_value_append:
  "dec_value (pre @ suf) = dec_value pre * 10 ^ length suf + dec_value suf"
proof (induction suf rule: rev_induct)
  case Nil
  then show ?case by (simp add: dec_value_def)
next
  case (snoc c suf)
  have "dec_value (pre @ suf @ [c]) = 10 * dec_value (pre @ suf) + (of_char c - 48)"
    using dec_value_snoc [of "pre @ suf" c] by simp
  then show ?case by (simp add: snoc.IH dec_value_snoc algebra_simps)
qed

lemma length_dec_nat: "10 ^ k \<le> n \<Longrightarrow> k < length (dec_nat n)"
proof (rule ccontr)
  assume n: "10 ^ k \<le> n" and "\<not> k < length (dec_nat n)"
  then have "length (dec_nat n) \<le> k" by simp
  then have "(10 :: nat) ^ length (dec_nat n) \<le> 10 ^ k"
    by (intro power_increasing) auto
  moreover have "n < 10 ^ length (dec_nat n)"
    using dec_value_less [OF dec_nat_digits, of n] by (simp add: dec_value_dec_nat)
  ultimately show False using n by linarith
qed

lemma slice_last6_dec:
  assumes "100000 \<le> now"
  shows "length (slice_last6 (num_toString now)) = 6"
    and "list_all is_digit (slice_last6 (num_toString now))"
    and "dec_value (slice_last6 (num_toString now)) = nat now mod 1000000"
proof -
  let ?s = "dec_nat (nat now)"
  from assms have s: "num_toString now = ?s"
    by (simp add: num_toString_def)
  have "10 ^ 5 \<le> nat now" using assms by simp
  then have len: "6 \<le> length ?s"
    using length_dec_nat [of 5 "nat now"] by simp
  then show l6: "length (slice_last6 (num_toString now)) = 6"
    by (simp add: s slice_last6_def)
  show dg: "list_all is_digit (slice_last6 (num_toString now))"
    using dec_nat_digits [of "nat now"]
    by (auto simp: s slice_last6_def list_all_iff dest: in_set_dropD)
  have "?s = take (length ?s - 6) ?s @ slice_last6 (num_toString now)"
    by (simp add: s slice_last6_def)
  then have "dec_value ?s = dec_value (take (length ?s - 6) ?s) * 10 ^ 6
      + dec_value (slice_last6 (num_toString now))"
    using dec_value_append [of "take (length ?s - 6) ?s" "slice_last6 (num_toString now)"] l6
    by simp
  moreover have "dec_value (slice_last6 (num_toString now)) < 10 ^ 6"
    using dec_value_less [OF dg] l6 by simp
  ultimately have eq: "nat now = dec_value (take (length ?s - 6) ?s) * 1000000
      + dec_value (slice_last6 (num_toString now))"
    and lt: "dec_value (slice_last6 (num_toString now)) < 1000000"
    by (simp_all add: dec_value_dec_nat)
  have "nat now mod 1000000 = dec_value (slice_last6 (num_toString now)) mod 1000000"
    by (subst eq) (simp only: mod_mult_self3)
  also have "\<dots> = dec_value (slice_last6 (num_toString now))"
    using lt by (rule mod_less)
  finally show "dec_value (slice_last6 (num_toString now)) = nat now mod 1000000"
    by simp
qed

section \<open>The decision of the core\<close>

lemma detect_None_iff:
  "detect grayscale width height thresh now = None
   \<longleftrightarrow> length (findPatterns grayscale width height thresh) < 3"
  by (auto simp: detect_def Let_def)

lemma detect_readable:
  assumes "3 \<le> length (findPatterns grayscale width height thresh)"
    and "length (decode_chunks (extract_bits grayscale width height thresh)) > 3"
    and "regex_test (decode_chunks (extract_bits grayscale width height thresh))"
  shows "detect grayscale width height thresh now =
           Some \<lparr>data = decode_chunks (extract_bits grayscale width height thresh)\<rparr>"
  using assms by (simp add: detect_def Let_def)

lemma detect_fallback:
  assumes "3 \<le> length (findPatterns grayscale width height thresh)"
    and "\<not> (length (decode_chunks (extract_bits grayscale width height thresh)) > 3 \<and>
             regex_test (decode_chunks (extract_bits grayscale width height thresh)))"
  shows "detect grayscale width height thresh now =
           Some \<lparr>data = fallback_id (findPatterns grayscale width height thresh) now\<rparr>"
  using assms by (auto simp: detect_def Let_def)

lemma fallback_id_three:
  "fallback_id (p1 # p2 # p3 # rest) now =
     ''QR_'' @ candidate_text p1 @ ''_'' @ candidate_text p2 @ ''_'' @ candidate_text p3 @ ''_''
       @ slice_last6 (num_toString now)"
  by (simp add: fallback_id_def patternHash_def candidate_text_def)

lemma three_or_more:
  assumes "3 \<le> length xs"
  obtains p1 p2 p3 rest where "xs = p1 # p2 # p3 # rest"
proof -
  from assms obtain p1 t1 where "xs = p1 # t1" by (cases xs) auto
  moreover with assms obtain p2 t2 where "t1 = p2 # t2" by (cases t1) auto
  moreover with assms calculation obtain p3 t3 where "t2 = p3 # t3" by (cases t2) auto
  ultimately show ?thesis using that by blast
qed

section \<open>The test frames, evaluated\<close>

lemma typed_get_payload_frame:
  "typed_get payload_frame idx =
     (if 0 \<le> idx \<and> idx < 14400
      then Some (payload_sample (nat idx mod 120) (nat idx div 120)) else None)"
  unfolding payload_frame_def typed_get_map_upt by simp

lemma three_candidates:
  assumes "a \<in> set (scan_grid width height)" "b \<in> set (scan_grid width height)"
    "c \<in> set (scan_grid width height)"
    and "a \<noteq> b" "a \<noteq> c" "b \<noteq> c"
    and "isFinderPattern gray (fst a) (snd a) (int width) (int height) thresh"
    and "isFinderPattern gray (fst b) (snd b) (int width) (int height) thresh"
    and "isFinderPattern gray (fst c) (snd c) (int width) (int height) thresh"
  shows "3 \<le> length (findPatterns gray width height thresh)"
proof -
  let ?hits = "filter (\<lambda>(x0, y0). isFinderPattern gray x0 y0 (int width) (int height) thresh)
                 (scan_grid width height)"
  have "{a, b, c} \<subseteq> set ?hits"
    using assms by (auto simp: case_prod_beta)
  then have "card {a, b, c} \<le> card (set ?hits)"
    by (intro card_mono) auto
  also have "\<dots> \<le> length ?hits" by (rule card_length)
  finally show ?thesis
    using assms(4-6) by (simp add: findPatterns_eq_filter)
qed

lemma findPatterns_payload_frame: "3 \<le> length (findPatterns payload_frame 120 120 128)"
proof (rule three_candidates [of "(0, 0)" _ _ "(3, 0)" "(6, 0)"])
  show "isFinderPattern payload_frame (fst (0, 0)) (snd (0, 0)) (int 120) (int 120) 128"
    by (simp add: window_eval typed_get_payload_frame payload_sample_def)
  show "isFinderPattern payload_frame (fst (3, 0)) (snd (3, 0)) (int 120) (int 120) 128"
    by (simp add: window_eval typed_get_payload_frame payload_sample_def)
  show "isFinderPattern payload_frame (fst (6, 0)) (snd (6, 0)) (int 120) (int 120) 128"
    by (simp add: window_eval typed_get_payload_frame payload_sample_def)
qed (simp_all add: set_scan_grid)

lemmas walk_eval =
  extract_bits_def extract_y.simps extract_x.simps sample_bit_def typed_get_num_def js_lt_def

lemmas decode_eval =
  decode_chunks_def chunks8.simps decode_step_def parseInt2_def is_bit_def bin_value_def
  char_of_eq_iff

lemma walk_54_66: "walk_steps 54 66 = [54, 56, 58, 60, 62, 64]"
  by (simp add: walk_steps.simps)

lemma extract_bits_payload_frame: "extract_bits payload_frame 120 120 128 = payload"
proof -
  have "extract_bits payload_frame 120 120 128 =
      concat (map (\<lambda>y1. map (\<lambda>x1. sample_bit payload_frame 120 128 x1 y1) (walk_steps 54 66))
        (walk_steps 54 66))"
    using extract_bits_eq [of payload_frame 120 120 128] by simp
  also have "\<dots> = payload"
    unfolding walk_54_66
    by (simp add: sample_bit_def typed_get_num_def js_lt_def typed_get_payload_frame
        payload_sample_def payload_def)
  finally show ?thesis .
qed

lemma decode_payload: "decode_chunks payload = ''ABCD''"
  by (simp add: decode_eval payload_def)

lemma extract_bits_stripes: "extract_bits (stripes 28 22) 28 22 128 = ''0''"
  by (simp add: walk_eval typed_get_stripes stripe_sample_def)

lemma decode_single_zero: "decode_chunks ''0'' = []"
  by (simp add: decode_eval)

lemma fallback_id_stripes:
  "fallback_id [\<lparr>pos_x = 0, pos_y = 0\<rparr>, \<lparr>pos_x = 3, pos_y = 0\<rparr>, \<lparr>pos_x = 6, pos_y = 0\<rparr>]
     1762000123456 = ''QR_0-0_3-0_6-0_123456''"
  by (simp add: fallback_id_def patternHash_def num_toString_def dec_nat.simps slice_last6_def
      char_of_eq_iff)

lemma findPatterns_white: "findPatterns white_frame 64 64 128 = []"
proof -
  have "set (findPatterns white_frame 64 64 128) = {}"
    unfolding set_findPatterns [OF length_white_frame] using white_frame_not_finder by blast
  then show ?thesis by simp
qed

lemma detect_payload_frame: "detect payload_frame 120 120 128 now = Some \<lparr>data = ''ABCD''\<rparr>"
proof -
  have "regex_test ''ABCD''"
    by (simp add: regex_test_def id_char_def)
  then show ?thesis
    using detect_readable [OF findPatterns_payload_frame, of now]
    by (simp add: extract_bits_payload_frame decode_payload)
qed

lemma detect_stripes:
  "detect (stripes 28 22) 28 22 128 1762000123456 = Some \<lparr>data = ''QR_0-0_3-0_6-0_123456''\<rparr>"
  using detect_fallback [of "stripes 28 22" 28 22 128 1762000123456]
  by (simp add: findPatterns_stripes extract_bits_stripes decode_single_zero fallback_id_stripes)

lemma chunks8_keeps_remainder: "chunks8 ''010000011'' = [''01000001'', ''1'']"
  by (simp add: chunks8.simps)

lemma decode_seven_bits: "decode_chunks ''1000001'' = ''A'' \<and> spec_decode ''1000001'' = []"
  by (simp add: decode_eval spec_decode_def full_chunks_def)

section \<open>Claims about the pattern-to-data extractor\<close>

text \<open>
  C1. For every luminance buffer, width, height, threshold and clock reading, the core
  returns \<open>null\<close> exactly when \<open>findPatterns\<close> yields fewer than 3 candidates, and with
  3 or more candidates it returns a result record carrying a data string. The model is a
  total function into \<open>detection_result option\<close>: every loop terminates and no step can
  throw, so there is no third outcome. The same holds for the entry point \<open>jsQR\<close>.
\<close>

theorem detect_absent_iff:
  "(detect grayscale width height thresh now = None
      \<longleftrightarrow> length (findPatterns grayscale width height thresh) < 3) \<and>
   (3 \<le> length (findPatterns grayscale width height thresh)
      \<longrightarrow> (\<exists>d. detect grayscale width height thresh now = Some \<lparr>data = d\<rparr>)) \<and>
   (jsQR rgba width height now = None
      \<longleftrightarrow> length (findPatterns (toGrayscale rgba width height) width height threshold) < 3)"
proof (intro conjI impI)
  show "detect grayscale width height thresh now = None
      \<longleftrightarrow> length (findPatterns grayscale width height thresh) < 3"
    by (rule detect_None_iff)
  show "jsQR rgba width height now = None
      \<longleftrightarrow> length (findPatterns (toGrayscale rgba width height) width height threshold) < 3"
    unfolding jsQR_def by (rule detect_None_iff)
  assume "3 \<le> length (findPatterns grayscale width height thresh)"
  then show "\<exists>d. detect grayscale width height thresh now = Some \<lparr>data = d\<rparr>"
    by (simp add: detect_def Let_def)
qed

theorem detect_absent_iff_witness:
  "3 \<le> length (findPatterns (stripes 28 22) 28 22 128) \<and>
   (\<exists>d. detect (stripes 28 22) 28 22 128 1762000123456 = Some \<lparr>data = d\<rparr>) \<and>
   length (findPatterns white_frame 64 64 128) < 3 \<and>
   detect white_frame 64 64 128 1762000123456 = None"
proof -
  have three: "3 \<le> length (findPatterns (stripes 28 22) 28 22 128)"
    by (simp add: findPatterns_stripes)
  have none: "length (findPatterns white_frame 64 64 128) < 3"
    by (simp add: findPatterns_white)
  from detect_absent_iff [of "stripes 28 22" 28 22 128 1762000123456 "[]"] three
  have "\<exists>d. detect (stripes 28 22) 28 22 128 1762000123456 = Some \<lparr>data = d\<rparr>"
    by blast
  moreover from detect_absent_iff [of white_frame 64 64 128 1762000123456 "[]"] none
  have "detect white_frame 64 64 128 1762000123456 = None"
    by blast
  ultimately show ?thesis using three none by (intro conjI)
qed

text \<open>
  C2. For every bit string the centre-region walk produces, the text assembled by the
  extractor is the text obtained by splitting the bits into consecutive 8-character chunks,
  discarding a trailing partial chunk, keeping at most the first 20 chunks, and emitting for
  each kept chunk the character of its base-2 value exactly when that value lies in
  \<open>[32, 126]\<close>. The source splits with \<open>/.{1,8}/g\<close>, which keeps a trailing partial
  chunk as a chunk of its own (\<open>chunks8_keeps_remainder\<close>); the walk visits a square of
  \<open>k * k\<close> pixels, so that chunk has 1 or 4 bits, its value is below 32, and it never
  contributes a character. On bit strings the walk cannot produce the two procedures differ
  (\<open>decode_seven_bits\<close>).
\<close>

theorem walk_bits_decoded_as_specified:
  "decode_chunks (extract_bits grayscale width height thresh) =
     spec_decode (extract_bits grayscale width height thresh) \<and>
   length (extract_bits grayscale width height thresh) mod 8 \<in> {0, 1, 4} \<and>
   list_all is_bit (extract_bits grayscale width height thresh)"
proof (intro conjI)
  show "decode_chunks (extract_bits grayscale width height thresh) =
     spec_decode (extract_bits grayscale width height thresh)"
    by (rule decode_walk_eq_spec)
  show "length (extract_bits grayscale width height thresh) mod 8 \<in> {0, 1, 4}"
    unfolding extract_bits_length by (rule square_mod_8)
  show "list_all is_bit (extract_bits grayscale width height thresh)"
    using extract_bits_bits [of grayscale width height thresh] by (simp add: list_all_iff)
qed

theorem walk_bits_decoded_as_specified_witness:
  "extract_bits payload_frame 120 120 128 = ''010000010100001001000011010001000000'' \<and>
   decode_chunks (extract_bits payload_frame 120 120 128) = ''ABCD'' \<and>
   spec_decode (extract_bits payload_frame 120 120 128) = ''ABCD''"
proof -
  have "spec_decode (extract_bits payload_frame 120 120 128) =
        decode_chunks (extract_bits payload_frame 120 120 128)"
    using walk_bits_decoded_as_specified [of payload_frame 120 120 128] by simp
  then show ?thesis
    by (simp add: extract_bits_payload_frame decode_payload) (simp add: payload_def)
qed

text \<open>
  C5. With at least 3 candidates and an assembled string that fails the test of step 5
  (length above 3 and every character in \<open>[A-Za-z0-9\-_]\<close>), the result is \<open>QR_\<close>,
  then the first three candidates each rendered as \<open>x-y\<close> and joined by \<open>_\<close>, then
  \<open>_\<close>, then the last six characters of the decimal rendering of the clock reading. For
  a clock reading of at least 100000 ms (any time later than 100 seconds after the epoch)
  these are six digits, and they denote the reading modulo \<open>10^6\<close>.
\<close>

theorem fallback_identifier:
  assumes "3 \<le> length (findPatterns grayscale width height thresh)"
    and "\<not> (length (decode_chunks (extract_bits grayscale width height thresh)) > 3 \<and>
             list_all id_char (decode_chunks (extract_bits grayscale width height thresh)))"
    and "100000 \<le> now"
  shows "\<exists>p1 p2 p3 rest suffix.
           findPatterns grayscale width height thresh = p1 # p2 # p3 # rest \<and>
           detect grayscale width height thresh now =
             Some \<lparr>data = ''QR_'' @ candidate_text p1 @ ''_'' @ candidate_text p2 @ ''_''
                           @ candidate_text p3 @ ''_'' @ suffix\<rparr> \<and>
           suffix = slice_last6 (num_toString now) \<and>
           length suffix = 6 \<and> list_all is_digit suffix \<and>
           dec_value suffix = nat now mod 1000000"
proof -
  from assms(1) obtain p1 p2 p3 rest
    where ps: "findPatterns grayscale width height thresh = p1 # p2 # p3 # rest"
    by (rule three_or_more)
  from assms(2)
  have "\<not> (length (decode_chunks (extract_bits grayscale width height thresh)) > 3 \<and>
            regex_test (decode_chunks (extract_bits grayscale width height thresh)))"
    by (auto simp: regex_test_def)
  from detect_fallback [OF assms(1) this, of now]
  have "detect grayscale width height thresh now =
          Some \<lparr>data = ''QR_'' @ candidate_text p1 @ ''_'' @ candidate_text p2 @ ''_''
                        @ candidate_text p3 @ ''_'' @ slice_last6 (num_toString now)\<rparr>"
    by (simp only: ps fallback_id_three)
  with ps slice_last6_dec [OF assms(3)] show ?thesis
    by blast
qed

theorem fallback_identifier_witness:
  "3 \<le> length (findPatterns (stripes 28 22) 28 22 128) \<and>
   \<not> (length (decode_chunks (extract_bits (stripes 28 22) 28 22 128)) > 3 \<and>
       list_all id_char (decode_chunks (extract_bits (stripes 28 22) 28 22 128))) \<and>
   (100000 :: int) \<le> 1762000123456 \<and>
   detect (stripes 28 22) 28 22 128 1762000123456 = Some \<lparr>data = ''QR_0-0_3-0_6-0_123456''\<rparr> \<and>
   (\<exists>suffix. suffix = slice_last6 (num_toString 1762000123456) \<and> length suffix = 6 \<and>
      list_all is_digit suffix \<and> dec_value suffix = 123456)"
proof -
  have h1: "3 \<le> length (findPatterns (stripes 28 22) 28 22 128)"
    by (simp add: findPatterns_stripes)
  have h2: "\<not> (length (decode_chunks (extract_bits (stripes 28 22) 28 22 128)) > 3 \<and>
       list_all id_char (decode_chunks (extract_bits (stripes 28 22) 28 22 128)))"
    by (simp add: extract_bits_stripes decode_single_zero)
  have h3: "(100000 :: int) \<le> 1762000123456"
    by simp
  from fallback_identifier [OF h1 h2 h3]
  have "\<exists>suffix. suffix = slice_last6 (num_toString 1762000123456) \<and> length suffix = 6 \<and>
      list_all is_digit suffix \<and> dec_value suffix = 123456"
    by auto
  with h1 h2 h3 detect_stripes show ?thesis
    by (intro conjI)
qed

text \<open>
  C6. With at least 3 candidates, if the string assembled from the extracted bits is longer
  than 3 and consists only of characters of \<open>[A-Za-z0-9\-_]\<close>, the result carries exactly
  that string.
\<close>

theorem readable_payload_returned:
  assumes "3 \<le> length (findPatterns grayscale width height thresh)"
    and "length (decode_chunks (extract_bits grayscale width height thresh)) > 3"
    and "list_all id_char (decode_chunks (extract_bits grayscale width height thresh))"
  shows "detect grayscale width height thresh now =
           Some \<lparr>data = decode_chunks (extract_bits grayscale width height thresh)\<rparr>"
proof -
  from assms(2,3) have "regex_test (decode_chunks (extract_bits grayscale width height thresh))"
    by (auto simp: regex_test_def)
  with assms(1,2) show ?thesis by (rule detect_readable)
qed

theorem readable_payload_returned_witness:
  "3 \<le> length (findPatterns payload_frame 120 120 128) \<and>
   decode_chunks (extract_bits payload_frame 120 120 128) = ''ABCD'' \<and>
   length ''ABCD'' > 3 \<and> list_all id_char ''ABCD'' \<and>
   detect payload_frame 120 120 128 1762000123456 = Some \<lparr>data = ''ABCD''\<rparr>"
proof -
  have r: "decode_chunks (extract_bits payload_frame 120 120 128) = ''ABCD''"
    by (simp add: extract_bits_payload_frame decode_payload)
  have h2: "length (decode_chunks (extract_bits payload_frame 120 120 128)) > 3"
    by (simp add: r)
  have h3: "list_all id_char (decode_chunks (extract_bits payload_frame 120 120 128))"
    by (simp add: r id_char_def)
  from readable_payload_returned [OF findPatterns_payload_frame h2 h3, of 1762000123456]
  have "detect payload_frame 120 120 128 1762000123456 = Some \<lparr>data = ''ABCD''\<rparr>"
    by (simp add: r)
  with findPatterns_payload_frame r h2 h3 show ?thesis
    by simp
qed

text \<open>
  C8. Whenever the core returns a result, its data string is not empty: it is either a
  string of 4 to 20 characters, all from \<open>[A-Za-z0-9\-_]\<close>, or a string that begins with
  \<open>QR_\<close>.
\<close>

theorem data_never_empty:
  assumes "detect grayscale width height thresh now = Some r"
  shows "data r \<noteq> [] \<and>
         ((4 \<le> length (data r) \<and> length (data r) \<le> 20 \<and> list_all id_char (data r)) \<or>
          (\<exists>rest. data r = ''QR_'' @ rest))"
proof -
  let ?result = "decode_chunks (extract_bits grayscale width height thresh)"
  show ?thesis
  proof (cases "length ?result > 3 \<and> regex_test ?result")
    case True
    with assms have "data r = ?result"
      by (auto simp: detect_def Let_def split: if_splits)
    with True length_decode_chunks [of "extract_bits grayscale width height thresh"]
    show ?thesis by (auto simp: regex_test_def)
  next
    case False
    with assms have "data r = fallback_id (findPatterns grayscale width height thresh) now"
      by (auto simp: detect_def Let_def split: if_splits)
    then show ?thesis by (simp add: fallback_id_def)
  qed
qed

theorem data_never_empty_witness:
  "detect payload_frame 120 120 128 1762000123456 = Some \<lparr>data = ''ABCD''\<rparr> \<and>
   4 \<le> length ''ABCD'' \<and> length ''ABCD'' \<le> 20 \<and> list_all id_char ''ABCD'' \<and>
   detect (stripes 28 22) 28 22 128 1762000123456 = Some \<lparr>data = ''QR_0-0_3-0_6-0_123456''\<rparr> \<and>
   ''QR_0-0_3-0_6-0_123456'' \<noteq> []"
proof -
  from data_never_empty [OF detect_stripes]
  have "''QR_0-0_3-0_6-0_123456'' \<noteq> []" by simp
  moreover from data_never_empty [OF detect_payload_frame [of 1762000123456]]
  have "4 \<le> length ''ABCD'' \<and> length ''ABCD'' \<le> 20 \<and> list_all id_char ''ABCD''"
    by (simp add: id_char_def)
  ultimately show ?thesis
    using detect_stripes detect_payload_frame [of 1762000123456] by simp
qed

end
